theory Spec2Isabelle
  imports
    Complex_Main
    "HOL-Library.List_Lexorder"
    "HOL-Library.Char_ord"
    "HOL-Library.Product_Lexorder"
    "HOL-Library.Sublist"
    "HOL-Library.AList"
    "HOL-Library.Multiset"
begin

section \<open>Strings and front-matter values\<close>

text \<open>
  Plan documents carry a header of typed fields. The scripts read a field with
  \<^verbatim>\<open>str(fm.get(k) or default).strip()\<close>, so an absent key and an empty value are read
  alike; the model keeps every text field as a \<^typ>\<open>string\<close> whose empty value stands
  for "absent". Characters are bytes; \<open>strip\<close> removes the ASCII white space that
  Python's \<^verbatim>\<open>str.strip\<close> removes.
\<close>

definition is_space :: "char \<Rightarrow> bool" where
  "is_space c = (c \<in> set [CHR '' '', CHR 0x09, CHR 0x0A, CHR 0x0B, CHR 0x0C, CHR 0x0D,
                            CHR 0x1C, CHR 0x1D, CHR 0x1E, CHR 0x1F])"

definition lstrip :: "string \<Rightarrow> string" where
  "lstrip s = dropWhile is_space s"

definition rstrip :: "string \<Rightarrow> string" where
  "rstrip s = rev (dropWhile is_space (rev s))"

definition strip :: "string \<Rightarrow> string" where
  "strip s = lstrip (rstrip s)"

definition lower_char :: "char \<Rightarrow> char" where
  "lower_char c =
     (if CHR ''A'' \<le> c \<and> c \<le> CHR ''Z'' then char_of (of_char c + (32::nat)) else c)"

definition lower :: "string \<Rightarrow> string" where
  "lower s = map lower_char s"

text \<open>\<^verbatim>\<open>sep.join(parts)\<close>.\<close>

fun join :: "string \<Rightarrow> string list \<Rightarrow> string" where
  "join sep [] = []"
| "join sep [x] = x"
| "join sep (x # y # ys) = x @ sep @ join sep (y # ys)"

text \<open>\<^verbatim>\<open>s.split(",")\<close>: the pieces between commas, at least one piece.\<close>

fun split_comma :: "string \<Rightarrow> string list" where
  "split_comma [] = [[]]"
| "split_comma (c # cs) =
     (if c = CHR '','' then [] # split_comma cs
      else (case split_comma cs of [] \<Rightarrow> [[c]] | p # ps \<Rightarrow> (c # p) # ps))"

text \<open>
  A field that holds a list of strings may be absent, a YAML list, or one string
  (\<^verbatim>\<open>twlib.normalize_str_list\<close> accepts a comma-separated fallback).
\<close>

datatype str_list_value = VNone | VList "string list" | VStr string

definition keep_item :: "string \<Rightarrow> bool" where
  "keep_item s = (s \<noteq> [] \<and> s \<noteq> ''[]'' \<and> s \<noteq> ''{}'')"

fun normalize_str_list :: "str_list_value \<Rightarrow> string list" where
  "normalize_str_list VNone = []"
| "normalize_str_list (VList vs) = filter keep_item (map strip vs)"
| "normalize_str_list (VStr v) =
     (let s = strip v in
      if \<not> keep_item s then [] else filter keep_item (map strip (split_comma s)))"

section \<open>Status rollup (plan\_sync.py, plan\_check.py)\<close>

text \<open>
  \<^verbatim>\<open>rollup_status\<close> appears with the same body in both scripts; the two copies are
  transcribed separately. \<^verbatim>\<open>any(...)\<close> is \<^const>\<open>list_ex\<close>, \<^verbatim>\<open>all(...)\<close> is
  \<^const>\<open>list_all\<close>, and the truth value of a sequence is its non-emptiness.
\<close>

definition rollup_status :: "string list \<Rightarrow> string" where
  "rollup_status states =
     (if list_ex (\<lambda>s. s = ''in_progress'') states then ''in_progress''
      else if list_ex (\<lambda>s. s = ''blocked'') states then ''blocked''
      else if states \<noteq> [] \<and> list_all (\<lambda>s. s \<in> set [''done'', ''cancelled'']) states then ''done''
      else ''planned'')"

definition rollup_status_check :: "string list \<Rightarrow> string" where
  "rollup_status_check states =
     (if list_ex (\<lambda>s. s = ''in_progress'') states then ''in_progress''
      else if list_ex (\<lambda>s. s = ''blocked'') states then ''blocked''
      else if states \<noteq> [] \<and> list_all (\<lambda>s. s \<in> set [''done'', ''cancelled'']) states then ''done''
      else ''planned'')"

text \<open>The children as \<^verbatim>\<open>plan_sync\<close> holds them: an identifier and a status.\<close>

record child =
  child_id :: string
  child_status :: string

definition rollup_details :: "child list \<Rightarrow> string" where
  "rollup_details cs = join '', '' (map (\<lambda>c. child_id c @ ''='' @ child_status c) cs)"

definition workstream_rollup :: "child list \<Rightarrow> string \<times> string" where
  "workstream_rollup jobs =
     (if jobs = [] then (''planned'', ''no jobs'')
      else (rollup_status (map child_status jobs), rollup_details jobs))"

definition project_rollup :: "child list \<Rightarrow> string \<times> string" where
  "project_rollup workstreams =
     (if workstreams = [] then (''planned'', ''no workstreams'')
      else (rollup_status (map child_status workstreams), rollup_details workstreams))"

text \<open>
  The rule in the words of the specification: \<open>in_progress\<close> if any child is
  \<open>in_progress\<close>; else \<open>blocked\<close> if any child is \<open>blocked\<close>; else \<open>done\<close> if all
  children are \<open>done\<close> or \<open>cancelled\<close>; else \<open>planned\<close>.
\<close>

definition spec_rollup_status :: "string list \<Rightarrow> string" where
  "spec_rollup_status states =
     (if ''in_progress'' \<in> set states then ''in_progress''
      else if ''blocked'' \<in> set states then ''blocked''
      else if set states \<subseteq> {''done'', ''cancelled''} then ''done''
      else ''planned'')"

section \<open>Rollup: results\<close>

lemma rollup_status_alt:
  "rollup_status states =
     (if ''in_progress'' \<in> set states then ''in_progress''
      else if ''blocked'' \<in> set states then ''blocked''
      else if states \<noteq> [] \<and> set states \<subseteq> {''done'', ''cancelled''} then ''done''
      else ''planned'')"
  unfolding rollup_status_def list_ex_iff list_all_iff by auto

lemma rollup_status_check_eq: "rollup_status_check states = rollup_status states"
  unfolding rollup_status_check_def rollup_status_def ..

text \<open>
  Claim C10, as stated, promises \<open>done\<close> for the empty family of children (all of no
  children are done). The code guards the \<open>done\<close> branch with non-emptiness and
  answers \<open>planned\<close>.
\<close>

theorem rollup_empty_counterexample:
  "rollup_status [] = ''planned'' \<and> spec_rollup_status [] = ''done''"
  by (simp add: rollup_status_def spec_rollup_status_def)

text \<open>
  Claim C10, amended: the rolled-up status is a function of the multiset of child
  statuses, the same for workstreams over jobs and projects over workstreams and in
  both scripts; it is \<open>in_progress\<close> if any child is \<open>in_progress\<close>, else \<open>blocked\<close> if
  any child is \<open>blocked\<close>, else \<open>done\<close> if there is at least one child and all children
  are \<open>done\<close> or \<open>cancelled\<close>, else \<open>planned\<close>; with no children it is \<open>planned\<close>.
\<close>

theorem rollup_status_pure_function:
  "(states \<noteq> [] \<longrightarrow> rollup_status states = spec_rollup_status states)
   \<and> rollup_status [] = ''planned''
   \<and> (mset states = mset states' \<longrightarrow> rollup_status states = rollup_status states')
   \<and> rollup_status_check states = rollup_status states
   \<and> fst (workstream_rollup cs) = rollup_status (map child_status cs)
   \<and> fst (project_rollup cs) = rollup_status (map child_status cs)"
proof -
  have a: "states \<noteq> [] \<longrightarrow> rollup_status states = spec_rollup_status states"
    by (simp add: rollup_status_alt spec_rollup_status_def)
  have b: "rollup_status [] = ''planned''"
    by (simp add: rollup_status_def)
  have c: "mset states = mset states' \<longrightarrow> rollup_status states = rollup_status states'"
  proof
    assume m: "mset states = mset states'"
    then have s: "set states = set states'" by (rule mset_eq_setD)
    from m have "states = [] \<longleftrightarrow> states' = []" by (metis mset_zero_iff)
    with s show "rollup_status states = rollup_status states'"
      by (simp add: rollup_status_alt)
  qed
  have d: "fst (workstream_rollup cs) = rollup_status (map child_status cs)"
    by (simp add: workstream_rollup_def b)
  have e: "fst (project_rollup cs) = rollup_status (map child_status cs)"
    by (simp add: project_rollup_def b)
  from a b c d e rollup_status_check_eq show ?thesis by blast
qed

theorem rollup_status_pure_function_witness:
  "rollup_status [''done'', ''cancelled''] = spec_rollup_status [''done'', ''cancelled'']
   \<and> rollup_status [''done'', ''cancelled''] = ''done''
   \<and> rollup_status [''done'', ''planned''] = rollup_status [''planned'', ''done'']
   \<and> rollup_status [''done'', ''planned''] = ''planned''"
proof -
  have m: "mset [''done'', ''planned''] = mset [''planned'', ''done'']"
    by (simp add: add.commute)
  have n: "[''done'', ''cancelled''] \<noteq> ([] :: string list)" by simp
  from rollup_status_pure_function [of "[''done'', ''cancelled'']" "[''done'', ''cancelled'']" "[]"] n
  have 1: "rollup_status [''done'', ''cancelled''] = spec_rollup_status [''done'', ''cancelled'']"
    by blast
  from rollup_status_pure_function [of "[''done'', ''planned'']" "[''planned'', ''done'']" "[]"] m
  have 2: "rollup_status [''done'', ''planned''] = rollup_status [''planned'', ''done'']"
    by blast
  have 3: "spec_rollup_status [''done'', ''cancelled''] = ''done''"
    by (simp add: spec_rollup_status_def)
  have 4: "rollup_status [''planned'', ''done''] = ''planned''"
    by (simp add: rollup_status_def)
  from 1 2 3 4 show ?thesis by simp
qed

section \<open>Scheduler (orchestrate\_plan.py)\<close>

text \<open>
  The front matter of a job plan as \<^verbatim>\<open>scan_jobs\<close> reads it. \<open>fm_estimate_hours\<close> is
  \<open>None\<close> when the field is absent or does not parse as a number. Estimates are Python
  floats; the model computes with real numbers.
\<close>

record plan_fm =
  fm_work_item_id :: string
  fm_title :: string
  fm_status :: string
  fm_estimate_hours :: "real option"
  fm_depends_on :: str_list_value
  fm_plan_path :: string

record JobNode =
  work_item_id :: string
  title :: string
  status :: string
  estimate_hours :: real
  depends_on :: "string list"
  plan_path :: string

definition parse_estimate_hours :: "real option \<Rightarrow> real" where
  "parse_estimate_hours v =
     (let estimate = (case v of None \<Rightarrow> 1 | Some e \<Rightarrow> if e = 0 then 1 else e)
      in if estimate \<le> 0 then 1 else estimate)"

text \<open>\<^verbatim>\<open>int(str(value).strip())\<close> either fails (\<open>None\<close>) or gives an integer.\<close>

definition parse_positive_int :: "int option \<Rightarrow> nat \<Rightarrow> nat" where
  "parse_positive_int v dflt =
     (case v of None \<Rightarrow> dflt | Some parsed \<Rightarrow> if parsed \<le> 0 then dflt else nat parsed)"

definition policy_parallel_limit :: "string \<Rightarrow> nat \<Rightarrow> nat" where
  "policy_parallel_limit policy configured_limit =
     (if policy \<in> set [''serial'', ''single'', ''manual'', ''off'', ''disabled'', ''none''] then 1
      else configured_limit)"

definition status_or_planned :: "string \<Rightarrow> string" where
  "status_or_planned raw = strip (if raw = [] then ''planned'' else raw)"

text \<open>
  A Python \<^verbatim>\<open>dict\<close> is an association list in insertion order: \<^const>\<open>map_of\<close> reads a
  key, \<^const>\<open>AList.update\<close> writes it (in place when present, at the end otherwise).
  \<^verbatim>\<open>scan_jobs\<close> walks the plan documents in directory order; the first document of an
  identifier wins.
\<close>

type_synonym jobs = "(string \<times> JobNode) list"

definition scan_step :: "plan_fm \<Rightarrow> jobs \<Rightarrow> jobs" where
  "scan_step fm out =
     (let wi = strip (fm_work_item_id fm) in
      if wi = [] then out
      else if map_of out wi \<noteq> None then out
      else AList.update wi
             \<lparr> work_item_id = wi,
               title = strip (fm_title fm),
               status = status_or_planned (fm_status fm),
               estimate_hours = parse_estimate_hours (fm_estimate_hours fm),
               depends_on = normalize_str_list (fm_depends_on fm),
               plan_path = fm_plan_path fm \<rparr> out)"

definition scan_jobs :: "plan_fm list \<Rightarrow> jobs" where
  "scan_jobs docs = fold scan_step docs []"

definition RUNNABLE_STATUSES :: "string list" where
  "RUNNABLE_STATUSES = [''planned'', ''blocked'', ''in_progress'']"

text \<open>\<^verbatim>\<open>jobs[wi]\<close> for a key that is present.\<close>

definition job_of :: "jobs \<Rightarrow> string \<Rightarrow> JobNode" where
  "job_of jobs wi = the (map_of jobs wi)"

definition node_ids_of :: "jobs \<Rightarrow> string list" where
  "node_ids_of jobs = sort (map fst jobs)"

definition active_ids_of :: "jobs \<Rightarrow> string list" where
  "active_ids_of jobs =
     sort (filter (\<lambda>wi. status (job_of jobs wi) \<in> set RUNNABLE_STATUSES) (node_ids_of jobs))"

text \<open>
  The in-degree table \<open>indeg\<close> is a \<^verbatim>\<open>dict\<close> from identifier to integer.
  \<^verbatim>\<open>adj\<close> is a \<^verbatim>\<open>defaultdict(list)\<close>, read with \<^verbatim>\<open>adj.get(k, [])\<close>: a function whose
  value is \<open>[]\<close> where nothing was appended. \<open>indeg\<close> is only ever indexed with active
  identifiers, which are its keys; the model reads a missing key as \<open>0\<close>.
\<close>

type_synonym indeg = "(string \<times> int) list"

definition indeg_get :: "indeg \<Rightarrow> string \<Rightarrow> int" where
  "indeg_get m k = (case map_of m k of Some v \<Rightarrow> v | None \<Rightarrow> 0)"

definition indeg_add :: "indeg \<Rightarrow> string \<Rightarrow> int \<Rightarrow> indeg" where
  "indeg_add m k d = AList.update k (indeg_get m k + d) m"

record blockers =
  missing_dependencies :: "string list"
  not_done_dependencies :: "string list"

record sched_tables =
  t_indeg :: indeg
  t_adj :: "string \<Rightarrow> string list"
  t_blocked_reasons :: "string \<Rightarrow> blockers"

definition no_blockers :: "blockers \<Rightarrow> bool" where
  "no_blockers b = (missing_dependencies b = [] \<and> not_done_dependencies b = [])"

text \<open>The body of the loop over \<^verbatim>\<open>jobs[wi].depends_on\<close>, for one dependency.\<close>

definition dep_step :: "jobs \<Rightarrow> string list \<Rightarrow> string \<Rightarrow> string \<Rightarrow> sched_tables \<Rightarrow> sched_tables" where
  "dep_step jobs active_ids wi dep t =
     (let dep_id = strip dep in
      if dep_id = [] then t
      else case map_of jobs dep_id of
        None \<Rightarrow>
          t\<lparr>t_blocked_reasons := (t_blocked_reasons t)(wi := (t_blocked_reasons t wi)
              \<lparr>missing_dependencies := missing_dependencies (t_blocked_reasons t wi) @ [dep_id]\<rparr>)\<rparr>
      | Some dep_node \<Rightarrow>
          if status dep_node = ''done'' then t
          else if dep_id \<in> set active_ids then
            t\<lparr>t_indeg := indeg_add (t_indeg t) wi 1,
              t_adj := (t_adj t)(dep_id := t_adj t dep_id @ [wi])\<rparr>
          else
            t\<lparr>t_blocked_reasons := (t_blocked_reasons t)(wi := (t_blocked_reasons t wi)
              \<lparr>not_done_dependencies := not_done_dependencies (t_blocked_reasons t wi) @ [dep_id]\<rparr>)\<rparr>)"

text \<open>\<^verbatim>\<open>{n: 0 for n in keys}\<close>.\<close>

definition dict_zero :: "string list \<Rightarrow> indeg" where
  "dict_zero keys = fold (\<lambda>k m. AList.update k 0 m) keys []"

definition init_tables :: "string list \<Rightarrow> sched_tables" where
  "init_tables active_ids =
     \<lparr> t_indeg = dict_zero active_ids,
       t_adj = (\<lambda>_. []),
       t_blocked_reasons = (\<lambda>_. \<lparr>missing_dependencies = [], not_done_dependencies = []\<rparr>) \<rparr>"

definition build_tables :: "jobs \<Rightarrow> string list \<Rightarrow> sched_tables" where
  "build_tables jobs active_ids =
     fold (\<lambda>wi t. fold (dep_step jobs active_ids wi) (depends_on (job_of jobs wi)) t)
       active_ids (init_tables active_ids)"

text \<open>\<^verbatim>\<open>sorted(set(xs))\<close>.\<close>

definition sorted_set :: "string list \<Rightarrow> string list" where
  "sorted_set xs = sort (remdups xs)"

definition normalize_tables :: "sched_tables \<Rightarrow> sched_tables" where
  "normalize_tables t =
     t\<lparr>t_adj := (\<lambda>d. sorted_set (t_adj t d)),
       t_blocked_reasons := (\<lambda>wi.
          \<lparr>missing_dependencies = sorted_set (missing_dependencies (t_blocked_reasons t wi)),
           not_done_dependencies = sorted_set (not_done_dependencies (t_blocked_reasons t wi))\<rparr>)\<rparr>"

definition initial_frontier :: "string list \<Rightarrow> sched_tables \<Rightarrow> string list" where
  "initial_frontier active_ids t =
     sort (filter (\<lambda>wi. indeg_get (t_indeg t) wi = 0 \<and> no_blockers (t_blocked_reasons t wi)) active_ids)"

text \<open>
  The inner loops of the wave loop: \<^verbatim>\<open>for child in adj.get(wi, [])\<close> and
  \<^verbatim>\<open>for wi in current_wave\<close>. \<open>scheduled\<close> is a Python set.
\<close>

definition relax_child :: "(string \<Rightarrow> blockers) \<Rightarrow> string \<Rightarrow> indeg \<times> string list \<Rightarrow> indeg \<times> string list" where
  "relax_child br child s =
     (let indeg' = indeg_add (fst s) child (- 1) in
      if indeg_get indeg' child = 0 \<and> no_blockers (br child)
      then (indeg', snd s @ [child]) else (indeg', snd s))"

definition schedule_wi ::
  "(string \<Rightarrow> string list) \<Rightarrow> (string \<Rightarrow> blockers) \<Rightarrow> string
    \<Rightarrow> (indeg \<times> string list) \<times> string set \<Rightarrow> (indeg \<times> string list) \<times> string set" where
  "schedule_wi adj br wi s = (fold (relax_child br) (adj wi) (fst s), insert wi (snd s))"

lemma pos_count_indeg_add:
  "length (filter (\<lambda>kv. snd kv > 0) (indeg_add m k (- 1)))
     + (if indeg_get (indeg_add m k (- 1)) k = 0 then 1 else 0)
   = length (filter (\<lambda>kv. snd kv > (0::int)) m)"
proof -
  have "length (filter (\<lambda>kv. snd kv > 0) (AList.update k (v - 1) m))
          + (if v - 1 = 0 then 1 else 0)
        = length (filter (\<lambda>kv. snd kv > (0::int)) m)"
    if "v = (case map_of m k of Some v \<Rightarrow> v | None \<Rightarrow> 0)" for v
    using that by (induction m) (auto split: if_splits)
  moreover have "indeg_get (indeg_add m k (- 1)) k = indeg_get m k - 1"
    by (simp add: indeg_get_def indeg_add_def update_conv')
  ultimately show ?thesis
    by (simp add: indeg_get_def indeg_add_def)
qed

lemma measure_relax_child:
  "length (snd (relax_child br c s)) + length (filter (\<lambda>kv. snd kv > 0) (fst (relax_child br c s)))
   \<le> length (snd s) + length (filter (\<lambda>kv. snd kv > 0) (fst s))"
  using pos_count_indeg_add [of "fst s" c]
  by (auto simp: relax_child_def Let_def split: if_splits)

lemma measure_fold_relax_child:
  "length (snd (fold (relax_child br) cs s)) + length (filter (\<lambda>kv. snd kv > 0) (fst (fold (relax_child br) cs s)))
   \<le> length (snd s) + length (filter (\<lambda>kv. snd kv > 0) (fst s))"
proof (induction cs arbitrary: s)
  case Nil
  show ?case by simp
next
  case (Cons c cs)
  from Cons.IH [of "relax_child br c s"] measure_relax_child [of br c s]
  show ?case by simp
qed

lemma measure_fold_schedule_wi:
  "length (snd (fst (fold (schedule_wi adj br) ws s)))
     + length (filter (\<lambda>kv. snd kv > 0) (fst (fst (fold (schedule_wi adj br) ws s))))
   \<le> length (snd (fst s)) + length (filter (\<lambda>kv. snd kv > 0) (fst (fst s)))"
proof (induction ws arbitrary: s)
  case Nil
  show ?case by simp
next
  case (Cons w ws)
  from Cons.IH [of "schedule_wi adj br w s"] measure_fold_relax_child [of br "adj w" "fst s"]
  show ?case by (simp add: schedule_wi_def)
qed

text \<open>
  The wave loop. \<^verbatim>\<open>frontier[:limit]\<close> is \<^const>\<open>take\<close>, \<^verbatim>\<open>frontier[limit:]\<close> is
  \<^const>\<open>drop\<close>. With a limit of \<open>0\<close> the Python loop appends empty waves for ever; the
  model answers \<open>None\<close> there. (\<^verbatim>\<open>parse_positive_int\<close> never yields such a limit.)
\<close>

record wave_result =
  r_waves :: "string list list"
  r_scheduled :: "string set"
  r_indeg :: indeg

function wave_loop ::
  "nat \<Rightarrow> (string \<Rightarrow> string list) \<Rightarrow> (string \<Rightarrow> blockers)
    \<Rightarrow> indeg \<Rightarrow> string list \<Rightarrow> string list list \<Rightarrow> string set \<Rightarrow> wave_result option" where
  "wave_loop limit adj br indeg frontier waves scheduled =
     (if frontier = [] then Some \<lparr>r_waves = waves, r_scheduled = scheduled, r_indeg = indeg\<rparr>
      else if limit = 0 then None
      else
        let current_wave = take limit frontier;
            s = fold (schedule_wi adj br) current_wave ((indeg, drop limit frontier), scheduled)
        in wave_loop limit adj br (fst (fst s)) (sorted_set (snd (fst s)))
             (waves @ [current_wave]) (snd s))"
  by pat_completeness auto
termination
proof (relation "measure (\<lambda>(limit, adj, br, indeg, frontier, waves, scheduled).
          length frontier + length (filter (\<lambda>kv. snd kv > 0) indeg))", goal_cases)
  case 1
  show ?case by simp
next
  case (2 limit adj br indeg frontier waves scheduled cw s)
  have "length (sorted_set (snd (fst s))) \<le> length (snd (fst s))"
    by (simp add: sorted_set_def length_remdups_leq)
  moreover from 2 measure_fold_schedule_wi [of adj br cw "((indeg, drop limit frontier), scheduled)"]
  have "length (snd (fst s)) + length (filter (\<lambda>kv. snd kv > 0) (fst (fst s)))
        \<le> length (drop limit frontier) + length (filter (\<lambda>kv. snd kv > 0) indeg)"
    by simp
  moreover from 2 have "length (drop limit frontier) < length frontier"
    by (cases frontier) auto
  ultimately show ?case by simp
qed

subsection \<open>Critical path\<close>

record cp_tables =
  cp_indeg :: indeg
  cp_preds :: "string \<Rightarrow> string list"
  cp_adj :: "string \<Rightarrow> string list"

definition cp_edge_step :: "string \<times> string \<Rightarrow> cp_tables \<Rightarrow> cp_tables" where
  "cp_edge_step e t =
     (let src = fst e; dst = snd e in
      if map_of (cp_indeg t) src = None \<or> map_of (cp_indeg t) dst = None then t
      else t\<lparr>cp_indeg := indeg_add (cp_indeg t) dst 1,
             cp_adj := (cp_adj t)(src := cp_adj t src @ [dst]),
             cp_preds := (cp_preds t)(dst := cp_preds t dst @ [src])\<rparr>)"

definition cp_build :: "string list \<Rightarrow> (string \<times> string) list \<Rightarrow> cp_tables" where
  "cp_build node_ids edges =
     fold cp_edge_step edges \<lparr>cp_indeg = dict_zero node_ids, cp_preds = (\<lambda>_. []), cp_adj = (\<lambda>_. [])\<rparr>"

definition cp_relax :: "string \<Rightarrow> indeg \<times> string list \<Rightarrow> indeg \<times> string list" where
  "cp_relax child s =
     (let indeg' = indeg_add (fst s) child (- 1) in
      if indeg_get indeg' child = 0 then (indeg', snd s @ [child]) else (indeg', snd s))"

lemma measure_cp_relax:
  "length (snd (cp_relax c s)) + length (filter (\<lambda>kv. snd kv > 0) (fst (cp_relax c s)))
   \<le> length (snd s) + length (filter (\<lambda>kv. snd kv > 0) (fst s))"
  using pos_count_indeg_add [of "fst s" c]
  by (auto simp: cp_relax_def Let_def split: if_splits)

lemma measure_fold_cp_relax:
  "length (snd (fold cp_relax cs s)) + length (filter (\<lambda>kv. snd kv > 0) (fst (fold cp_relax cs s)))
   \<le> length (snd s) + length (filter (\<lambda>kv. snd kv > 0) (fst s))"
proof (induction cs arbitrary: s)
  case Nil
  show ?case by simp
next
  case (Cons c cs)
  from Cons.IH [of "cp_relax c s"] measure_cp_relax [of c s]
  show ?case by simp
qed

text \<open>
  The topological sort: \<^verbatim>\<open>cur = frontier.pop(0)\<close>, the children of \<open>cur\<close> lose one
  in-degree each, those that reach zero join the frontier, and the frontier is sorted
  again.
\<close>

function topo_loop ::
  "(string \<Rightarrow> string list) \<Rightarrow> indeg \<Rightarrow> string list \<Rightarrow> string list \<Rightarrow> string list" where
  "topo_loop adj indeg frontier topo_order =
     (case frontier of
        [] \<Rightarrow> topo_order
      | cur # rest \<Rightarrow>
          let s = fold cp_relax (sort (adj cur)) (indeg, rest)
          in topo_loop adj (fst s) (sort (snd s)) (topo_order @ [cur]))"
  by pat_completeness auto
termination
proof (relation "measure (\<lambda>(adj, indeg, frontier, topo_order).
          length frontier + length (filter (\<lambda>kv. snd kv > 0) indeg))", goal_cases)
  case 1
  show ?case by simp
next
  case (2 adj indeg frontier topo_order cur rest s)
  from 2 measure_fold_cp_relax [of "sort (adj cur)" "(indeg, rest)"]
  show ?case by simp
qed

text \<open>
  The longest-path pass. \<open>dist\<close> and \<open>parent\<close> are dictionaries filled in topological
  order; \<^verbatim>\<open>weights.get(node, 1.0)\<close> reads the estimate.
\<close>

type_synonym dist = "(string \<times> real) list"
type_synonym parent = "(string \<times> string option) list"

definition cp_pred_step :: "dist \<Rightarrow> real \<Rightarrow> string \<Rightarrow> real \<times> string option \<Rightarrow> real \<times> string option" where
  "cp_pred_step dist_tab node_weight pred b =
     (case map_of dist_tab pred of
        None \<Rightarrow> b
      | Some d \<Rightarrow> (let cand = d + node_weight in if cand > fst b then (cand, Some pred) else b))"

definition cp_node_step ::
  "(string \<Rightarrow> string list) \<Rightarrow> (string \<rightharpoonup> real) \<Rightarrow> string \<Rightarrow> dist \<times> parent \<Rightarrow> dist \<times> parent" where
  "cp_node_step preds weights node s =
     (let node_weight = (case weights node of Some w \<Rightarrow> w | None \<Rightarrow> 1);
          b = fold (cp_pred_step (fst s) node_weight) (preds node) (node_weight, None)
      in (AList.update node (fst b) (fst s), AList.update node (snd b) (snd s)))"

text \<open>\<^verbatim>\<open>max(keys, key=f)\<close> returns the first key whose value is greatest.\<close>

fun max_first :: "('a \<Rightarrow> real) \<Rightarrow> 'a \<Rightarrow> 'a list \<Rightarrow> 'a" where
  "max_first f b [] = b"
| "max_first f b (x # xs) = (if f x > f b then max_first f x xs else max_first f b xs)"

definition dist_of :: "dist \<Rightarrow> string \<Rightarrow> real" where
  "dist_of dist_tab wi = the (map_of dist_tab wi)"

definition cp_end :: "dist \<Rightarrow> string" where
  "cp_end dist_tab = max_first (dist_of dist_tab) (hd (map fst dist_tab)) (tl (map fst dist_tab))"

definition parent_get :: "parent \<Rightarrow> string \<Rightarrow> string option" where
  "parent_get parent c = (case map_of parent c of None \<Rightarrow> None | Some v \<Rightarrow> v)"

text \<open>
  \<^verbatim>\<open>while cur: path.append(cur); cur = parent.get(cur)\<close>. The loop ends at \<open>None\<close> and
  at the empty string; on a parent table with a cycle it would not end, which is the
  value \<open>None\<close> of the model.
\<close>

partial_function (option) walk_parents :: "parent \<Rightarrow> string option \<Rightarrow> string list \<Rightarrow> string list option" where
  "walk_parents parent cur path =
     (case cur of
        None \<Rightarrow> Some path
      | Some c \<Rightarrow> if c = [] then Some path else walk_parents parent (parent_get parent c) (path @ [c]))"

declare walk_parents.simps [code]

definition longest_pass :: "(string \<Rightarrow> string list) \<Rightarrow> (string \<rightharpoonup> real) \<Rightarrow> string list \<Rightarrow> dist \<times> parent" where
  "longest_pass preds weights topo_order = fold (cp_node_step preds weights) topo_order ([], [])"

definition cp_topo_order :: "string list \<Rightarrow> cp_tables \<Rightarrow> string list" where
  "cp_topo_order node_ids t =
     topo_loop (cp_adj t) (cp_indeg t)
       (sort (filter (\<lambda>n. indeg_get (cp_indeg t) n = 0) node_ids)) []"

definition critical_path ::
  "string list \<Rightarrow> (string \<times> string) list \<Rightarrow> (string \<rightharpoonup> real) \<Rightarrow> (string list \<times> real \<times> bool) option" where
  "critical_path node_ids edges weights =
     (let t = cp_build node_ids edges;
          topo_order = cp_topo_order node_ids t
      in if length topo_order \<noteq> length node_ids then Some ([], 0, False)
         else
           let s = longest_pass (cp_preds t) weights topo_order in
           if fst s = [] then Some ([], 0, True)
           else
             let end_node = cp_end (fst s); total = dist_of (fst s) end_node in
             case walk_parents (snd s) (Some end_node) [] of
               None \<Rightarrow> None
             | Some path \<Rightarrow> Some (rev path, total, True))"

subsection \<open>The report\<close>

definition all_edges_of :: "jobs \<Rightarrow> (string \<times> string) list" where
  "all_edges_of jobs =
     sort (remdups (concat (map (\<lambda>wi.
        map (\<lambda>dep. (strip dep, wi))
          (filter (\<lambda>dep. map_of jobs (strip dep) \<noteq> None) (depends_on (job_of jobs wi))))
        (node_ids_of jobs))))"

definition weights_of :: "jobs \<Rightarrow> (string \<rightharpoonup> real)" where
  "weights_of jobs = map_of (map (\<lambda>wi. (wi, estimate_hours (job_of jobs wi))) (node_ids_of jobs))"

definition scheduler_tables :: "jobs \<Rightarrow> sched_tables" where
  "scheduler_tables jobs = normalize_tables (build_tables jobs (active_ids_of jobs))"

definition scheduler_waves :: "nat \<Rightarrow> jobs \<Rightarrow> wave_result option" where
  "scheduler_waves effective_limit jobs =
     (let active_ids = active_ids_of jobs;
          t = scheduler_tables jobs
      in wave_loop effective_limit (t_adj t) (t_blocked_reasons t) (t_indeg t)
           (initial_frontier active_ids t) [] {})"

record orchestration =
  o_critical_path :: "string list \<times> real \<times> bool"
  o_runnable_now :: "string list"
  o_waves :: "string list list"
  o_blocked_reasons :: "string \<Rightarrow> blockers"

definition orchestrate :: "nat \<Rightarrow> plan_fm list \<Rightarrow> orchestration option" where
  "orchestrate effective_limit docs =
     (let jobs = scan_jobs docs in
      case critical_path (node_ids_of jobs) (all_edges_of jobs) (weights_of jobs) of
        None \<Rightarrow> None
      | Some cp \<Rightarrow>
          (case scheduler_waves effective_limit jobs of
             None \<Rightarrow> None
           | Some r \<Rightarrow>
               Some \<lparr> o_critical_path = cp,
                      o_runnable_now = (if r_waves r = [] then [] else hd (r_waves r)),
                      o_waves = r_waves r,
                      o_blocked_reasons = t_blocked_reasons (scheduler_tables jobs) \<rparr>))"

subsection \<open>What the table-building loop computes\<close>

definition is_active_dep :: "jobs \<Rightarrow> string list \<Rightarrow> string \<Rightarrow> bool" where
  "is_active_dep jobs act dep =
     (strip dep \<noteq> [] \<and> (\<exists>n. map_of jobs (strip dep) = Some n \<and> status n \<noteq> ''done'')
      \<and> strip dep \<in> set act)"

definition is_missing_dep :: "jobs \<Rightarrow> string \<Rightarrow> bool" where
  "is_missing_dep jobs dep = (strip dep \<noteq> [] \<and> map_of jobs (strip dep) = None)"

definition is_not_done_dep :: "jobs \<Rightarrow> string list \<Rightarrow> string \<Rightarrow> bool" where
  "is_not_done_dep jobs act dep =
     (strip dep \<noteq> [] \<and> (\<exists>n. map_of jobs (strip dep) = Some n \<and> status n \<noteq> ''done'')
      \<and> strip dep \<notin> set act)"

lemma indeg_get_add: "indeg_get (indeg_add m k d) n = indeg_get m n + (if n = k then d else 0)"
  by (simp add: indeg_get_def indeg_add_def update_conv')

lemma dep_step_indeg:
  "indeg_get (t_indeg (dep_step jobs act wi dep t)) k
   = indeg_get (t_indeg t) k + (if k = wi \<and> is_active_dep jobs act dep then 1 else 0)"
  by (auto simp: dep_step_def Let_def is_active_dep_def indeg_get_add split: option.splits)

lemma dep_step_missing:
  "missing_dependencies (t_blocked_reasons (dep_step jobs act wi dep t) k)
   = missing_dependencies (t_blocked_reasons t k)
     @ (if k = wi \<and> is_missing_dep jobs dep then [strip dep] else [])"
  by (auto simp: dep_step_def Let_def is_missing_dep_def split: option.splits)

lemma dep_step_not_done:
  "not_done_dependencies (t_blocked_reasons (dep_step jobs act wi dep t) k)
   = not_done_dependencies (t_blocked_reasons t k)
     @ (if k = wi \<and> is_not_done_dep jobs act dep then [strip dep] else [])"
  by (auto simp: dep_step_def Let_def is_not_done_dep_def split: option.splits)

lemma dep_step_adj:
  "t_adj (dep_step jobs act wi dep t) d
   = t_adj t d @ (if is_active_dep jobs act dep \<and> strip dep = d then [wi] else [])"
  by (auto simp: dep_step_def Let_def is_active_dep_def split: option.splits)

lemma fold_dep_step_indeg:
  "indeg_get (t_indeg (fold (dep_step jobs act wi) deps t)) k
   = indeg_get (t_indeg t) k
     + (if k = wi then int (length (filter (is_active_dep jobs act) deps)) else 0)"
  by (induction deps arbitrary: t) (simp_all add: dep_step_indeg)

lemma fold_dep_step_missing:
  "missing_dependencies (t_blocked_reasons (fold (dep_step jobs act wi) deps t) k)
   = missing_dependencies (t_blocked_reasons t k)
     @ (if k = wi then map strip (filter (is_missing_dep jobs) deps) else [])"
  by (induction deps arbitrary: t) (simp_all add: dep_step_missing)

lemma fold_dep_step_not_done:
  "not_done_dependencies (t_blocked_reasons (fold (dep_step jobs act wi) deps t) k)
   = not_done_dependencies (t_blocked_reasons t k)
     @ (if k = wi then map strip (filter (is_not_done_dep jobs act) deps) else [])"
  by (induction deps arbitrary: t) (simp_all add: dep_step_not_done)

lemma fold_dep_step_adj:
  "set (t_adj (fold (dep_step jobs act wi) deps t) d)
   = set (t_adj t d)
     \<union> (if \<exists>dep \<in> set deps. is_active_dep jobs act dep \<and> strip dep = d then {wi} else {})"
  by (induction deps arbitrary: t) (auto simp: dep_step_adj)

definition build_from :: "jobs \<Rightarrow> string list \<Rightarrow> string list \<Rightarrow> sched_tables \<Rightarrow> sched_tables" where
  "build_from jobs act ws t =
     fold (\<lambda>wi t. fold (dep_step jobs act wi) (depends_on (job_of jobs wi)) t) ws t"

lemma build_from_indeg:
  "distinct ws \<Longrightarrow>
   indeg_get (t_indeg (build_from jobs act ws t)) k
   = indeg_get (t_indeg t) k
     + (if k \<in> set ws then int (length (filter (is_active_dep jobs act) (depends_on (job_of jobs k)))) else 0)"
  unfolding build_from_def
  by (induction ws arbitrary: t) (auto simp: fold_dep_step_indeg)

lemma build_from_missing:
  "distinct ws \<Longrightarrow>
   missing_dependencies (t_blocked_reasons (build_from jobs act ws t) k)
   = missing_dependencies (t_blocked_reasons t k)
     @ (if k \<in> set ws then map strip (filter (is_missing_dep jobs) (depends_on (job_of jobs k))) else [])"
  unfolding build_from_def
  by (induction ws arbitrary: t) (auto simp: fold_dep_step_missing)

lemma build_from_not_done:
  "distinct ws \<Longrightarrow>
   not_done_dependencies (t_blocked_reasons (build_from jobs act ws t) k)
   = not_done_dependencies (t_blocked_reasons t k)
     @ (if k \<in> set ws then map strip (filter (is_not_done_dep jobs act) (depends_on (job_of jobs k))) else [])"
  unfolding build_from_def
  by (induction ws arbitrary: t) (auto simp: fold_dep_step_not_done)

lemma build_from_adj:
  "set (t_adj (build_from jobs act ws t) d)
   = set (t_adj t d)
     \<union> {wi \<in> set ws. \<exists>dep \<in> set (depends_on (job_of jobs wi)). is_active_dep jobs act dep \<and> strip dep = d}"
  unfolding build_from_def
  by (induction ws arbitrary: t) (auto simp: fold_dep_step_adj)

lemma map_of_dict_zero: "map_of (dict_zero ks) k = (if k \<in> set ks then Some 0 else None)"
proof -
  have "map_of (fold (\<lambda>k m. AList.update k 0 m) ks m) k
        = (if k \<in> set ks then Some 0 else map_of m k)" for m :: indeg
    by (induction ks arbitrary: m) (auto simp: update_conv')
  then show ?thesis by (simp add: dict_zero_def)
qed

lemma indeg_get_dict_zero: "indeg_get (dict_zero ks) k = 0"
  by (simp add: indeg_get_def map_of_dict_zero)

lemma distinct_active_ids: "distinct (map fst jobs) \<Longrightarrow> distinct (active_ids_of jobs)"
  by (simp add: active_ids_of_def node_ids_of_def)

lemma distinct_scan_jobs: "distinct (map fst (scan_jobs docs))"
proof -
  have "distinct (map fst out) \<Longrightarrow> distinct (map fst (fold scan_step docs out))" for out
    by (induction docs arbitrary: out) (auto simp: scan_step_def Let_def distinct_update)
  then show ?thesis by (simp add: scan_jobs_def)
qed

lemma scheduler_tables_indeg:
  assumes "distinct (map fst jobs)"
  shows "indeg_get (t_indeg (scheduler_tables jobs)) k
         = (if k \<in> set (active_ids_of jobs)
            then int (length (filter (is_active_dep jobs (active_ids_of jobs)) (depends_on (job_of jobs k))))
            else 0)"
  using build_from_indeg [OF distinct_active_ids [OF assms], of jobs "active_ids_of jobs" "init_tables (active_ids_of jobs)" k]
  by (simp add: scheduler_tables_def normalize_tables_def build_tables_def build_from_def
      init_tables_def indeg_get_dict_zero)

lemma scheduler_tables_missing:
  assumes "distinct (map fst jobs)"
  shows "set (missing_dependencies (t_blocked_reasons (scheduler_tables jobs) k))
         = (if k \<in> set (active_ids_of jobs)
            then strip ` {dep \<in> set (depends_on (job_of jobs k)). is_missing_dep jobs dep}
            else {})"
  using build_from_missing [OF distinct_active_ids [OF assms], of jobs "active_ids_of jobs" "init_tables (active_ids_of jobs)" k]
  by (simp add: scheduler_tables_def normalize_tables_def build_tables_def build_from_def
      init_tables_def sorted_set_def)

lemma scheduler_tables_not_done:
  assumes "distinct (map fst jobs)"
  shows "set (not_done_dependencies (t_blocked_reasons (scheduler_tables jobs) k))
         = (if k \<in> set (active_ids_of jobs)
            then strip ` {dep \<in> set (depends_on (job_of jobs k)). is_not_done_dep jobs (active_ids_of jobs) dep}
            else {})"
  using build_from_not_done [OF distinct_active_ids [OF assms], of jobs "active_ids_of jobs" "init_tables (active_ids_of jobs)" k]
  by (simp add: scheduler_tables_def normalize_tables_def build_tables_def build_from_def
      init_tables_def sorted_set_def)

lemma scheduler_tables_adj:
  "set (t_adj (scheduler_tables jobs) d)
   = {wi \<in> set (active_ids_of jobs).
        \<exists>dep \<in> set (depends_on (job_of jobs wi)). is_active_dep jobs (active_ids_of jobs) dep \<and> strip dep = d}"
  using build_from_adj [of jobs "active_ids_of jobs" "active_ids_of jobs" "init_tables (active_ids_of jobs)" d]
  by (simp add: scheduler_tables_def normalize_tables_def build_tables_def build_from_def
      init_tables_def sorted_set_def)

lemma distinct_scheduler_adj: "distinct (t_adj (scheduler_tables jobs) d)"
  by (simp add: scheduler_tables_def normalize_tables_def sorted_set_def)

definition dep_present_done :: "jobs \<Rightarrow> string \<Rightarrow> bool" where
  "dep_present_done jobs dep =
     (case map_of jobs (strip dep) of None \<Rightarrow> False | Some n \<Rightarrow> status n = ''done'')"

lemma dep_classes:
  "strip dep = [] \<or> dep_present_done jobs dep \<or> is_missing_dep jobs dep
   \<or> is_active_dep jobs act dep \<or> is_not_done_dep jobs act dep"
  by (auto simp: dep_present_done_def is_missing_dep_def is_active_dep_def is_not_done_dep_def
      split: option.splits)

lemma dep_present_done_excl:
  "dep_present_done jobs dep \<Longrightarrow>
     \<not> is_missing_dep jobs dep \<and> \<not> is_active_dep jobs act dep \<and> \<not> is_not_done_dep jobs act dep"
  by (auto simp: dep_present_done_def is_missing_dep_def is_active_dep_def is_not_done_dep_def
      split: option.splits)

lemma initial_frontier_iff:
  assumes d: "distinct (map fst jobs)" and a: "wi \<in> set (active_ids_of jobs)"
  shows "wi \<in> set (initial_frontier (active_ids_of jobs) (scheduler_tables jobs))
         \<longleftrightarrow> list_all (\<lambda>dep. strip dep = [] \<or> dep_present_done jobs dep) (depends_on (job_of jobs wi))"
proof -
  let ?act = "active_ids_of jobs"
  let ?deps = "depends_on (job_of jobs wi)"
  have i: "indeg_get (t_indeg (scheduler_tables jobs)) wi = 0
           \<longleftrightarrow> (\<forall>dep \<in> set ?deps. \<not> is_active_dep jobs ?act dep)"
    using a by (simp add: scheduler_tables_indeg [OF d] filter_empty_conv)
  have m: "missing_dependencies (t_blocked_reasons (scheduler_tables jobs) wi) = []
           \<longleftrightarrow> (\<forall>dep \<in> set ?deps. \<not> is_missing_dep jobs dep)"
    using a scheduler_tables_missing [OF d, of wi] by (auto simp flip: set_empty)
  have n: "not_done_dependencies (t_blocked_reasons (scheduler_tables jobs) wi) = []
           \<longleftrightarrow> (\<forall>dep \<in> set ?deps. \<not> is_not_done_dep jobs ?act dep)"
    using a scheduler_tables_not_done [OF d, of wi] by (auto simp flip: set_empty)
  have "wi \<in> set (initial_frontier ?act (scheduler_tables jobs))
        \<longleftrightarrow> (\<forall>dep \<in> set ?deps. \<not> is_active_dep jobs ?act dep \<and> \<not> is_missing_dep jobs dep
               \<and> \<not> is_not_done_dep jobs ?act dep)"
    using a by (auto simp: initial_frontier_def no_blockers_def i m n)
  also have "\<dots> \<longleftrightarrow> (\<forall>dep \<in> set ?deps. strip dep = [] \<or> dep_present_done jobs dep)"
  proof -
    have "(\<not> is_active_dep jobs ?act dep \<and> \<not> is_missing_dep jobs dep \<and> \<not> is_not_done_dep jobs ?act dep)
          \<longleftrightarrow> (strip dep = [] \<or> dep_present_done jobs dep)" for dep
      using dep_classes [of dep jobs ?act] dep_present_done_excl [of jobs dep ?act]
      by (auto simp: is_missing_dep_def is_active_dep_def is_not_done_dep_def)
    then show ?thesis by simp
  qed
  finally show ?thesis by (simp add: list_all_iff)
qed

lemma wave_loop_total: "0 < limit \<Longrightarrow> wave_loop limit adj br indeg frontier waves scheduled \<noteq> None"
proof (induction limit adj br indeg frontier waves scheduled rule: wave_loop.induct)
  case (1 limit adj br indeg frontier waves scheduled)
  show ?case
  proof (cases "frontier = []")
    case True
    then show ?thesis by (simp add: wave_loop.simps [of limit adj br indeg frontier])
  next
    case False
    with 1 show ?thesis
      by (subst wave_loop.simps) (simp add: Let_def)
  qed
qed

lemma wave_loop_prefix:
  "wave_loop limit adj br indeg frontier waves scheduled = Some r \<Longrightarrow> prefix waves (r_waves r)"
proof (induction limit adj br indeg frontier waves scheduled rule: wave_loop.induct)
  case (1 limit adj br indeg frontier waves scheduled)
  show ?case
  proof (cases "frontier = []")
    case True
    with "1.prems" show ?thesis by (auto simp: wave_loop.simps [of limit adj br indeg frontier])
  next
    case False
    from "1.prems" False have l: "limit \<noteq> 0"
      by (auto simp: wave_loop.simps [of limit adj br indeg frontier] split: if_splits)
    from "1.prems" False l "1.IH" [OF False l refl refl]
    have "prefix (waves @ [take limit frontier]) (r_waves r)"
      by (simp add: wave_loop.simps [of limit adj br indeg frontier] Let_def)
    then show ?thesis by (meson append_prefixD)
  qed
qed

lemma wave_loop_first:
  assumes "wave_loop limit adj br indeg frontier [] scheduled = Some r"
  shows "(if r_waves r = [] then [] else hd (r_waves r)) = take limit frontier"
proof (cases "frontier = []")
  case True
  with assms show ?thesis by (auto simp: wave_loop.simps [of limit adj br indeg frontier])
next
  case False
  from assms False have l: "limit \<noteq> 0"
    by (auto simp: wave_loop.simps [of limit adj br indeg frontier] split: if_splits)
  from assms False l obtain i f s where
    "wave_loop limit adj br i f ([] @ [take limit frontier]) s = Some r"
    by (simp add: wave_loop.simps [of limit adj br indeg frontier] Let_def)
  from wave_loop_prefix [OF this] show ?thesis
    by (auto simp: prefix_def)
qed

subsection \<open>Eligibility for the first wave\<close>

definition mk_plan :: "string \<Rightarrow> string \<Rightarrow> real \<Rightarrow> string list \<Rightarrow> plan_fm" where
  "mk_plan wi st est deps =
     \<lparr> fm_work_item_id = wi, fm_title = wi, fm_status = st, fm_estimate_hours = Some est,
       fm_depends_on = VList deps, fm_plan_path = wi @ ''/plan.md'' \<rparr>"

definition cancelled_dep_docs :: "plan_fm list" where
  "cancelled_dep_docs = [mk_plan ''X'' ''planned'' 1 [''Y''], mk_plan ''Y'' ''cancelled'' 1 []]"

definition done_dep_docs :: "plan_fm list" where
  "done_dep_docs = [mk_plan ''X'' ''planned'' 1 [''Y''], mk_plan ''Y'' ''done'' 1 []]"

text \<open>
  Claim C6, as stated, lets a dependency that is present but outside the active set pass
  as satisfied, and names \<open>cancelled\<close> as such a status. In the code a dependency that is
  present, not \<open>done\<close> and not active is recorded under \<open>not_done_dependencies\<close>, and a
  job with such an entry never enters the frontier: job \<open>X\<close> (planned) depending on \<open>Y\<close>
  (cancelled) gets no wave.
\<close>

theorem cancelled_dependency_blocks_counterexample:
  "''X'' \<in> set (active_ids_of (scan_jobs cancelled_dep_docs))
   \<and> ''Y'' \<notin> set (active_ids_of (scan_jobs cancelled_dep_docs))
   \<and> map_option status (map_of (scan_jobs cancelled_dep_docs) ''Y'') = Some ''cancelled''
   \<and> depends_on (job_of (scan_jobs cancelled_dep_docs) ''X'') = [''Y'']
   \<and> map_option o_waves (orchestrate 2 cancelled_dep_docs) = Some []
   \<and> map_option (\<lambda>r. not_done_dependencies (o_blocked_reasons r ''X'')) (orchestrate 2 cancelled_dep_docs)
       = Some [''Y'']"
  by code_simp

text \<open>
  Claim C6, amended: with a positive concurrency limit the scheduler returns, its first
  wave is the first \<open>limit\<close> jobs of the sorted initial frontier, and an active job is in
  that frontier exactly when every non-empty dependency is present in the job set with
  status \<open>done\<close>. A dependency that is missing, active, or present with any other
  status (\<open>cancelled\<close> included) keeps the job out.
\<close>

theorem first_wave_eligibility:
  assumes "jobs = scan_jobs docs" and "wi \<in> set (active_ids_of jobs)" and "0 < limit"
  shows "\<exists>r. scheduler_waves limit jobs = Some r
           \<and> (if r_waves r = [] then [] else hd (r_waves r))
               = take limit (initial_frontier (active_ids_of jobs) (scheduler_tables jobs))
           \<and> (wi \<in> set (initial_frontier (active_ids_of jobs) (scheduler_tables jobs))
                \<longleftrightarrow> list_all (\<lambda>dep. strip dep = [] \<or> dep_present_done jobs dep)
                      (depends_on (job_of jobs wi)))"
proof -
  from assms(1) have d: "distinct (map fst jobs)" by (simp add: distinct_scan_jobs)
  from wave_loop_total [OF assms(3)] obtain r where r: "scheduler_waves limit jobs = Some r"
    unfolding scheduler_waves_def Let_def by blast
  then have "(if r_waves r = [] then [] else hd (r_waves r))
             = take limit (initial_frontier (active_ids_of jobs) (scheduler_tables jobs))"
    unfolding scheduler_waves_def Let_def by (rule wave_loop_first)
  with r initial_frontier_iff [OF d assms(2)] show ?thesis by blast
qed

theorem first_wave_eligibility_witness:
  "''X'' \<in> set (active_ids_of (scan_jobs done_dep_docs))
   \<and> ''X'' \<in> set (initial_frontier (active_ids_of (scan_jobs done_dep_docs))
                    (scheduler_tables (scan_jobs done_dep_docs)))
   \<and> ''X'' \<in> set (active_ids_of (scan_jobs cancelled_dep_docs))
   \<and> ''X'' \<notin> set (initial_frontier (active_ids_of (scan_jobs cancelled_dep_docs))
                    (scheduler_tables (scan_jobs cancelled_dep_docs)))"
proof -
  have a: "''X'' \<in> set (active_ids_of (scan_jobs done_dep_docs))" by code_simp
  have b: "list_all (\<lambda>dep. strip dep = [] \<or> dep_present_done (scan_jobs done_dep_docs) dep)
             (depends_on (job_of (scan_jobs done_dep_docs) ''X''))" by code_simp
  have c: "''X'' \<in> set (active_ids_of (scan_jobs cancelled_dep_docs))" by code_simp
  have e: "\<not> list_all (\<lambda>dep. strip dep = [] \<or> dep_present_done (scan_jobs cancelled_dep_docs) dep)
             (depends_on (job_of (scan_jobs cancelled_dep_docs) ''X''))" by code_simp
  from first_wave_eligibility [OF refl a, of 2] b
  have 1: "''X'' \<in> set (initial_frontier (active_ids_of (scan_jobs done_dep_docs))
                    (scheduler_tables (scan_jobs done_dep_docs)))" by auto
  from first_wave_eligibility [OF refl c, of 2] e
  have 2: "''X'' \<notin> set (initial_frontier (active_ids_of (scan_jobs cancelled_dep_docs))
                    (scheduler_tables (scan_jobs cancelled_dep_docs)))" by auto
  from a c 1 2 show ?thesis by simp
qed

subsection \<open>The wave loop keeps the dependency order\<close>

text \<open>
  \<open>hits adj n D\<close> counts the members of the list \<open>D\<close> of processed jobs that have \<open>n\<close> as a
  child. The loop invariant ties the in-degree table to the jobs processed so far.
\<close>

definition hits :: "(string \<Rightarrow> string list) \<Rightarrow> string \<Rightarrow> string list \<Rightarrow> nat" where
  "hits adj n D = length (filter (\<lambda>d. n \<in> set (adj d)) D)"

definition graph_ok :: "(string \<Rightarrow> string list) \<Rightarrow> (string \<Rightarrow> int) \<Rightarrow> string set \<Rightarrow> bool" where
  "graph_ok adj i0 N =
     ((\<forall>d. distinct (adj d) \<and> set (adj d) \<subseteq> N)
      \<and> (\<forall>n. finite {d. n \<in> set (adj d)} \<and> int (card {d. n \<in> set (adj d)}) \<le> i0 n))"

definition wave_inv ::
  "(string \<Rightarrow> string list) \<Rightarrow> (string \<Rightarrow> int) \<Rightarrow> string set
    \<Rightarrow> indeg \<Rightarrow> string list \<Rightarrow> string list \<Rightarrow> string list \<Rightarrow> bool" where
  "wave_inv adj i0 N indeg D pend fr =
     ((\<forall>n. indeg_get indeg n = i0 n - int (hits adj n D))
      \<and> distinct (D @ pend) \<and> set fr \<inter> set (D @ pend) = {}
      \<and> (\<forall>c \<in> set D \<union> set pend \<union> set fr. indeg_get indeg c \<le> 0)
      \<and> (\<forall>c \<in> set fr. \<forall>d. c \<in> set (adj d) \<longrightarrow> d \<in> set D)
      \<and> set D \<union> set pend \<union> set fr \<subseteq> N)"

lemma count_list_distinct: "distinct xs \<Longrightarrow> count_list xs x = (if x \<in> set xs then 1 else 0)"
  by (induction xs) auto

lemma fold_relax_child_indeg:
  "indeg_get (fst (fold (relax_child br) cs s)) n = indeg_get (fst s) n - int (count_list cs n)"
  by (induction cs arbitrary: s) (auto simp: relax_child_def Let_def indeg_get_add)

lemma fold_relax_child_frontier:
  "distinct cs \<Longrightarrow>
   snd (fold (relax_child br) cs s)
   = snd s @ filter (\<lambda>c. indeg_get (fst s) c = 1 \<and> no_blockers (br c)) cs"
proof (induction cs arbitrary: s)
  case Nil
  show ?case by simp
next
  case (Cons c cs)
  have "filter (\<lambda>x. indeg_get (fst (relax_child br c s)) x = 1 \<and> no_blockers (br x)) cs
        = filter (\<lambda>x. indeg_get (fst s) x = 1 \<and> no_blockers (br x)) cs"
    using Cons.prems by (intro filter_cong) (auto simp: relax_child_def Let_def indeg_get_add)
  with Cons show ?case
    by (auto simp: relax_child_def Let_def indeg_get_add)
qed

lemma all_hits_subset:
  assumes "distinct S" and "finite {d. n \<in> set (adj d)}"
    and "int (card {d. n \<in> set (adj d)}) \<le> i0" and "i0 = int (hits adj n S)"
  shows "{d. n \<in> set (adj d)} \<subseteq> set S"
proof -
  let ?A = "{d. n \<in> set (adj d)}"
  have "hits adj n S = card (set (filter (\<lambda>d. n \<in> set (adj d)) S))"
    unfolding hits_def using assms(1) by (metis distinct_card distinct_filter)
  also have "set (filter (\<lambda>d. n \<in> set (adj d)) S) = ?A \<inter> set S" by auto
  finally have "card ?A \<le> card (?A \<inter> set S)" using assms(3,4) by simp
  moreover have "?A \<inter> set S \<subseteq> ?A" by simp
  ultimately have "?A \<inter> set S = ?A"
    using assms(2) by (metis card_seteq)
  then show ?thesis by blast
qed

lemma schedule_wi_inv:
  assumes g: "graph_ok adj i0 N" and inv: "wave_inv adj i0 N indeg D (w # pend) fr"
  shows "wave_inv adj i0 N (fst (fst (schedule_wi adj br w ((indeg, fr), sched))))
           (D @ [w]) pend (snd (fst (schedule_wi adj br w ((indeg, fr), sched))))"
proof -
  let ?indeg' = "fst (fold (relax_child br) (adj w) (indeg, fr))"
  let ?new = "filter (\<lambda>c. indeg_get indeg c = 1 \<and> no_blockers (br c)) (adj w)"
  from g have dw: "distinct (adj w)" and sub: "set (adj w) \<subseteq> N" by (auto simp: graph_ok_def)
  have i': "indeg_get ?indeg' n = indeg_get indeg n - (if n \<in> set (adj w) then 1 else 0)" for n
    by (simp add: fold_relax_child_indeg count_list_distinct [OF dw])
  have fr': "snd (fold (relax_child br) (adj w) (indeg, fr)) = fr @ ?new"
    by (simp add: fold_relax_child_frontier [OF dw])
  from inv have j3: "\<And>n. indeg_get indeg n = i0 n - int (hits adj n D)"
    and j2: "distinct (D @ w # pend)" "set fr \<inter> set (D @ w # pend) = {}"
    and j4: "\<And>c. c \<in> set D \<union> set (w # pend) \<union> set fr \<Longrightarrow> indeg_get indeg c \<le> 0"
    and j5: "\<And>c d. c \<in> set fr \<Longrightarrow> c \<in> set (adj d) \<Longrightarrow> d \<in> set D"
    and j6: "set D \<union> set (w # pend) \<union> set fr \<subseteq> N"
    by (auto simp: wave_inv_def)
  have h: "hits adj n (D @ [w]) = hits adj n D + (if n \<in> set (adj w) then 1 else 0)" for n
    by (simp add: hits_def)
  have n3: "indeg_get ?indeg' n = i0 n - int (hits adj n (D @ [w]))" for n
    by (simp add: i' j3 h)
  have newfresh: "c \<notin> set D \<union> set (w # pend) \<union> set fr" if "c \<in> set ?new" for c
    using that j4 [of c] by auto
  have n2a: "distinct ((D @ [w]) @ pend)" using j2 by auto
  have n2b: "set (fr @ ?new) \<inter> set ((D @ [w]) @ pend) = {}"
    using j2 newfresh by auto
  have n4: "indeg_get ?indeg' c \<le> 0" if "c \<in> set (D @ [w]) \<union> set pend \<union> set (fr @ ?new)" for c
  proof (cases "c \<in> set ?new")
    case True
    then show ?thesis by (simp add: i')
  next
    case False
    with that have "c \<in> set D \<union> set (w # pend) \<union> set fr" by auto
    from j4 [OF this] show ?thesis by (simp add: i')
  qed
  have n5: "d \<in> set (D @ [w])" if c: "c \<in> set (fr @ ?new)" and cd: "c \<in> set (adj d)" for c d
  proof (cases "c \<in> set ?new")
    case False
    with c j5 cd show ?thesis by auto
  next
    case True
    then have 1: "indeg_get indeg c = 1" and 2: "c \<in> set (adj w)" by auto
    from 1 2 j3 [of c] have "i0 c = int (hits adj c (D @ [w]))" by (simp add: h)
    moreover from j2 have "distinct (D @ [w])" by auto
    moreover from g have "finite {d. c \<in> set (adj d)}" "int (card {d. c \<in> set (adj d)}) \<le> i0 c"
      by (auto simp: graph_ok_def)
    ultimately have "{d. c \<in> set (adj d)} \<subseteq> set (D @ [w])"
      by (intro all_hits_subset)
    with cd show ?thesis by blast
  qed
  have n6: "set (D @ [w]) \<union> set pend \<union> set (fr @ ?new) \<subseteq> N"
    using j6 sub by auto
  show ?thesis
    unfolding wave_inv_def schedule_wi_def
    using n3 n2a n2b n4 n5 n6 by (simp add: fr')
qed

lemma fold_schedule_wi_inv:
  assumes g: "graph_ok adj i0 N"
  shows "wave_inv adj i0 N (fst (fst s)) D ws (snd (fst s)) \<Longrightarrow>
         wave_inv adj i0 N (fst (fst (fold (schedule_wi adj br) ws s)))
           (D @ ws) [] (snd (fst (fold (schedule_wi adj br) ws s)))"
proof (induction ws arbitrary: s D)
  case Nil
  then show ?case by simp
next
  case (Cons w ws)
  from schedule_wi_inv [OF g, of "fst (fst s)" D w ws "snd (fst s)" br "snd s"] Cons.prems
  have "wave_inv adj i0 N (fst (fst (schedule_wi adj br w s))) (D @ [w]) ws
          (snd (fst (schedule_wi adj br w s)))"
    by simp
  from Cons.IH [OF this] show ?case by simp
qed

lemma wave_inv_frontier_set:
  "set fr = set fr' \<Longrightarrow> wave_inv adj i0 N indeg D pend fr = wave_inv adj i0 N indeg D pend fr'"
  unfolding wave_inv_def by simp

lemma set_sorted_set: "set (sorted_set xs) = set xs"
  by (simp add: sorted_set_def)

definition waves_valid :: "(string \<Rightarrow> string list) \<Rightarrow> string list list \<Rightarrow> bool" where
  "waves_valid adj waves =
     (\<forall>i < length waves. \<forall>w \<in> set (waves ! i). \<forall>d. w \<in> set (adj d) \<longrightarrow>
        (\<exists>j < i. d \<in> set (waves ! j)))"

lemma waves_valid_snoc:
  assumes "waves_valid adj waves"
    and "\<And>w d. w \<in> set cw \<Longrightarrow> w \<in> set (adj d) \<Longrightarrow> d \<in> set (concat waves)"
  shows "waves_valid adj (waves @ [cw])"
  unfolding waves_valid_def
proof (intro allI impI ballI)
  fix i w d
  assume i: "i < length (waves @ [cw])" and w: "w \<in> set ((waves @ [cw]) ! i)" and d: "w \<in> set (adj d)"
  show "\<exists>j<i. d \<in> set ((waves @ [cw]) ! j)"
  proof (cases "i < length waves")
    case True
    with w have "w \<in> set (waves ! i)" by (simp add: nth_append)
    with assms(1) True d obtain j where "j < i" "d \<in> set (waves ! j)"
      unfolding waves_valid_def by blast
    with True show ?thesis by (auto simp: nth_append intro!: exI [of _ j])
  next
    case False
    with i have e: "i = length waves" by simp
    with w have "w \<in> set cw" by simp
    from assms(2) [OF this d] obtain ys where "ys \<in> set waves" "d \<in> set ys" by auto
    then obtain j where "j < length waves" "d \<in> set (waves ! j)"
      by (metis in_set_conv_nth)
    with e show ?thesis by (auto simp: nth_append intro!: exI [of _ j])
  qed
qed

lemma wave_loop_valid:
  "graph_ok adj i0 N \<Longrightarrow>
         wave_loop limit adj br indeg frontier waves scheduled = Some r \<Longrightarrow>
         wave_inv adj i0 N indeg (concat waves) [] frontier \<Longrightarrow> distinct frontier \<Longrightarrow>
         waves_valid adj waves \<Longrightarrow>
         waves_valid adj (r_waves r) \<and> set (concat (r_waves r)) \<subseteq> N"
proof (induction limit adj br indeg frontier waves scheduled rule: wave_loop.induct)
  case (1 limit adj br indeg frontier waves scheduled)
  note g = "1.prems"(1)
  show ?case
  proof (cases "frontier = []")
    case True
    with "1.prems"(2) have "r_waves r = waves"
      by (auto simp: wave_loop.simps [of limit adj br indeg frontier])
    moreover from "1.prems"(3) have "set (concat waves) \<subseteq> N"
      unfolding wave_inv_def by blast
    ultimately show ?thesis using "1.prems"(5) by simp
  next
    case False
    from "1.prems"(2) False have l: "limit \<noteq> 0"
      by (auto simp: wave_loop.simps [of limit adj br indeg frontier] split: if_splits)
    let ?cw = "take limit frontier"
    let ?s = "fold (schedule_wi adj br) ?cw ((indeg, drop limit frontier), scheduled)"
    from "1.prems"(2) False l
    have run: "wave_loop limit adj br (fst (fst ?s)) (sorted_set (snd (fst ?s)))
                 (waves @ [?cw]) (snd ?s) = Some r"
      by (simp add: wave_loop.simps [of limit adj br indeg frontier] Let_def)
    have fr: "set frontier = set ?cw \<union> set (drop limit frontier)"
      by (metis append_take_drop_id set_append)
    have dj: "set ?cw \<inter> set (drop limit frontier) = {}"
      using "1.prems"(4) by (rule set_take_disj_set_drop_if_distinct) simp
    have dcw: "distinct ?cw" using "1.prems"(4) by simp
    from "1.prems"(3) have
      "wave_inv adj i0 N indeg (concat waves) ?cw (drop limit frontier)"
      unfolding wave_inv_def using fr dj dcw by auto
    then have "wave_inv adj i0 N (fst (fst ((indeg, drop limit frontier), scheduled))) (concat waves) ?cw
       (snd (fst ((indeg, drop limit frontier), scheduled)))" by simp
    from fold_schedule_wi_inv [OF g this, of br]
    have "wave_inv adj i0 N (fst (fst ?s)) (concat waves @ ?cw) [] (snd (fst ?s))" .
    then have inv': "wave_inv adj i0 N (fst (fst ?s)) (concat (waves @ [?cw])) []
                       (sorted_set (snd (fst ?s)))"
      using wave_inv_frontier_set [OF set_sorted_set, of adj i0 N "fst (fst ?s)"
          "concat waves @ ?cw" "[]" "snd (fst ?s)"]
      by simp
    have d': "distinct (sorted_set (snd (fst ?s)))" by (simp add: sorted_set_def)
    have v': "waves_valid adj (waves @ [?cw])"
    proof (rule waves_valid_snoc [OF "1.prems"(5)])
      fix w d assume "w \<in> set ?cw" "w \<in> set (adj d)"
      with "1.prems"(3) fr show "d \<in> set (concat waves)"
        unfolding wave_inv_def by blast
    qed
    from "1.IH" [OF False l refl refl g run inv' d' v'] show ?thesis .
  qed
qed

definition waves_respect_dependencies :: "jobs \<Rightarrow> string list list \<Rightarrow> bool" where
  "waves_respect_dependencies jobs waves =
     (\<forall>i \<in> set [0..<length waves]. \<forall>w \<in> set (waves ! i).
        \<forall>dep \<in> set (depends_on (job_of jobs w)).
          strip dep \<in> set (active_ids_of jobs) \<longrightarrow> strip dep \<in> set (concat (take i waves)))"

lemma scan_jobs_keys_nonempty: "[] \<notin> fst ` set (scan_jobs docs)"
proof -
  have "[] \<notin> fst ` set out \<Longrightarrow> [] \<notin> fst ` set (fold scan_step docs out)" for out
  proof (induction docs arbitrary: out)
    case Nil
    then show ?case by simp
  next
    case (Cons d ds)
    have "[] \<notin> fst ` set (scan_step d out)"
      using Cons.prems dom_update [of "strip (fm_work_item_id d)" _ out]
      by (auto simp: scan_step_def Let_def simp del: dom_update)
    from Cons.IH [OF this] show ?case by simp
  qed
  then show ?thesis by (simp add: scan_jobs_def)
qed

lemma active_id_facts:
  assumes "k \<in> set (active_ids_of jobs)"
  shows "k \<in> fst ` set jobs" and "\<exists>n. map_of jobs k = Some n \<and> status n \<noteq> ''done''"
proof -
  from assms show k: "k \<in> fst ` set jobs"
    by (auto simp: active_ids_of_def node_ids_of_def)
  then obtain n where n: "map_of jobs k = Some n"
    by (metis domD dom_map_of_conv_image_fst)
  with assms have "status n \<in> set RUNNABLE_STATUSES"
    by (auto simp: active_ids_of_def job_of_def)
  with n show "\<exists>n. map_of jobs k = Some n \<and> status n \<noteq> ''done''"
    by (auto simp: RUNNABLE_STATUSES_def)
qed

lemma scheduler_graph_ok:
  assumes d: "distinct (map fst jobs)"
  shows "graph_ok (t_adj (scheduler_tables jobs)) (indeg_get (t_indeg (scheduler_tables jobs)))
           (set (active_ids_of jobs))"
  unfolding graph_ok_def
proof (intro conjI allI)
  fix x
  show "distinct (t_adj (scheduler_tables jobs) x)" by (rule distinct_scheduler_adj)
  show "set (t_adj (scheduler_tables jobs) x) \<subseteq> set (active_ids_of jobs)"
    by (auto simp: scheduler_tables_adj)
  let ?act = "active_ids_of jobs"
  let ?A = "{dd. x \<in> set (t_adj (scheduler_tables jobs) dd)}"
  let ?F = "filter (is_active_dep jobs ?act) (depends_on (job_of jobs x))"
  have sub: "?A \<subseteq> strip ` set ?F"
    by (auto simp: scheduler_tables_adj)
  then show "finite ?A" by (rule finite_subset) simp
  show "int (card ?A) \<le> indeg_get (t_indeg (scheduler_tables jobs)) x"
  proof (cases "x \<in> set ?act")
    case True
    have "card ?A \<le> card (strip ` set ?F)" using sub by (intro card_mono) simp_all
    also have "\<dots> \<le> card (set ?F)" by (rule card_image_le) simp
    also have "\<dots> \<le> length ?F" by (rule card_length)
    finally show ?thesis using True by (simp add: scheduler_tables_indeg [OF d])
  next
    case False
    then have "?A = {}" by (auto simp: scheduler_tables_adj)
    with False show ?thesis by (simp add: scheduler_tables_indeg [OF d])
  qed
qed

lemma scheduler_initial_inv:
  assumes g: "graph_ok adj i0 N" and s: "set fr \<subseteq> N" and z: "\<And>c. c \<in> set fr \<Longrightarrow> i0 c = 0"
    and i: "\<And>n. indeg_get indeg n = i0 n"
  shows "wave_inv adj i0 N indeg [] [] fr"
proof -
  have "False" if "c \<in> set fr" "c \<in> set (adj dd)" for c dd
  proof -
    from g have "finite {d. c \<in> set (adj d)}" "int (card {d. c \<in> set (adj d)}) \<le> i0 c"
      by (auto simp: graph_ok_def)
    with z [OF that(1)] have "{d. c \<in> set (adj d)} = {}" by simp
    with that(2) show False by blast
  qed
  then show ?thesis
    unfolding wave_inv_def using s z i by (auto simp: hits_def)
qed

lemma scheduler_waves_valid:
  assumes d: "distinct (map fst jobs)" and e: "[] \<notin> fst ` set jobs"
    and r: "scheduler_waves limit jobs = Some r"
  shows "waves_respect_dependencies jobs (r_waves r)"
proof -
  let ?t = "scheduler_tables jobs"
  let ?act = "active_ids_of jobs"
  let ?f = "initial_frontier ?act ?t"
  note g = scheduler_graph_ok [OF d]
  have f1: "set ?f \<subseteq> set ?act" by (auto simp: initial_frontier_def)
  have f2: "indeg_get (t_indeg ?t) c = 0" if "c \<in> set ?f" for c
    using that by (simp add: initial_frontier_def)
  have "wave_inv (t_adj ?t) (indeg_get (t_indeg ?t)) (set ?act) (t_indeg ?t) [] [] ?f"
    by (rule scheduler_initial_inv [OF g f1 f2 refl])
  then have inv: "wave_inv (t_adj ?t) (indeg_get (t_indeg ?t)) (set ?act) (t_indeg ?t) (concat []) [] ?f"
    by simp
  have df: "distinct ?f"
    using distinct_active_ids [OF d] by (simp add: initial_frontier_def)
  from r have run: "wave_loop limit (t_adj ?t) (t_blocked_reasons ?t) (t_indeg ?t) ?f [] {} = Some r"
    by (simp add: scheduler_waves_def Let_def)
  have v0: "waves_valid (t_adj ?t) []" by (simp add: waves_valid_def)
  from wave_loop_valid [OF g run inv df v0]
  have v: "waves_valid (t_adj ?t) (r_waves r)" and a: "set (concat (r_waves r)) \<subseteq> set ?act"
    by blast+
  show ?thesis
    unfolding waves_respect_dependencies_def
  proof (intro ballI impI)
    fix i w dep
    assume i: "i \<in> set [0..<length (r_waves r)]" and w: "w \<in> set (r_waves r ! i)"
      and dep: "dep \<in> set (depends_on (job_of jobs w))" and act: "strip dep \<in> set ?act"
    from i have il: "i < length (r_waves r)" by simp
    then have "r_waves r ! i \<in> set (r_waves r)" by simp
    with w have "w \<in> set (concat (r_waves r))" by auto
    with a have wa: "w \<in> set ?act" by blast
    from active_id_facts(1) [OF act] e have "strip dep \<noteq> []" by metis
    with active_id_facts(2) [OF act] act have "is_active_dep jobs ?act dep"
      by (simp add: is_active_dep_def)
    with wa dep have "w \<in> set (t_adj ?t (strip dep))"
      by (auto simp: scheduler_tables_adj)
    with v il w obtain j where "j < i" "strip dep \<in> set (r_waves r ! j)"
      unfolding waves_valid_def by blast
    with il have "take i (r_waves r) ! j = r_waves r ! j" "j < length (take i (r_waves r))"
      by simp_all
    then have "r_waves r ! j \<in> set (take i (r_waves r))" by (metis nth_mem)
    with \<open>strip dep \<in> set (r_waves r ! j)\<close>
    show "strip dep \<in> set (concat (take i (r_waves r)))" by auto
  qed
qed

subsection \<open>The four-job example and the wave theorem\<close>

definition abcd_docs :: "plan_fm list" where
  "abcd_docs =
     [mk_plan ''A'' ''planned'' 1 [],
      mk_plan ''B'' ''planned'' 1 [''A''],
      mk_plan ''C'' ''planned'' 3 [''A''],
      mk_plan ''D'' ''planned'' 1 [''B'', ''C'']]"

lemma abcd_tables:
  "t_indeg (scheduler_tables (scan_jobs abcd_docs)) = [(''A'', 0), (''B'', 1), (''C'', 1), (''D'', 2)]"
  "t_adj (scheduler_tables (scan_jobs abcd_docs)) ''A'' = [''B'', ''C'']"
  "t_adj (scheduler_tables (scan_jobs abcd_docs)) ''B'' = [''D'']"
  "t_adj (scheduler_tables (scan_jobs abcd_docs)) ''C'' = [''D'']"
  "t_adj (scheduler_tables (scan_jobs abcd_docs)) ''D'' = []"
  "no_blockers (t_blocked_reasons (scheduler_tables (scan_jobs abcd_docs)) ''B'')"
  "no_blockers (t_blocked_reasons (scheduler_tables (scan_jobs abcd_docs)) ''C'')"
  "no_blockers (t_blocked_reasons (scheduler_tables (scan_jobs abcd_docs)) ''D'')"
  "initial_frontier (active_ids_of (scan_jobs abcd_docs)) (scheduler_tables (scan_jobs abcd_docs)) = [''A'']"
  by code_simp+

lemma abcd_wave_loop:
  assumes "adj ''A'' = [''B'', ''C'']" "adj ''B'' = [''D'']" "adj ''C'' = [''D'']" "adj ''D'' = []"
    and "no_blockers (br ''B'')" "no_blockers (br ''C'')" "no_blockers (br ''D'')"
    and "2 \<le> limit"
  shows "map_option r_waves
           (wave_loop limit adj br [(''A'', 0), (''B'', 1), (''C'', 1), (''D'', 2)] [''A''] [] {})
         = Some [[''A''], [''B'', ''C''], [''D'']]"
proof -
  from assms(8) have l: "limit \<noteq> 0" "take limit [''A''] = [''A'']" "drop limit [''A''] = []"
    "take limit [''B'', ''C''] = [''B'', ''C'']" "drop limit [''B'', ''C''] = []"
    "take limit [''D''] = [''D'']" "drop limit [''D''] = []"
    by simp_all
  have s1: "sorted_set [''B'', ''C''] = [''B'', ''C'']" by code_simp
  have s2: "sorted_set [''D''] = [''D'']" by code_simp
  have s3: "sorted_set [] = []" by code_simp
  have f1: "fold (schedule_wi adj br) [''A''] (([(''A'', 0), (''B'', 1), (''C'', 1), (''D'', 2)], []), {})
     = (([(''A'', 0), (''B'', 0), (''C'', 0), (''D'', 2)], [''B'', ''C'']), {''A''})"
    by (simp add: assms(1,5,6) schedule_wi_def relax_child_def indeg_add_def indeg_get_def)
  have f2: "fold (schedule_wi adj br) [''B'', ''C''] (([(''A'', 0), (''B'', 0), (''C'', 0), (''D'', 2)], []), {''A''})
     = (([(''A'', 0), (''B'', 0), (''C'', 0), (''D'', 0)], [''D'']), {''C'', ''B'', ''A''})"
    by (simp add: assms(2,3,7) schedule_wi_def relax_child_def indeg_add_def indeg_get_def)
  have f3: "fold (schedule_wi adj br) [''D''] (([(''A'', 0), (''B'', 0), (''C'', 0), (''D'', 0)], []), {''C'', ''B'', ''A''})
     = (([(''A'', 0), (''B'', 0), (''C'', 0), (''D'', 0)], []), {''D'', ''C'', ''B'', ''A''})"
    by (simp add: assms(4) schedule_wi_def relax_child_def indeg_add_def indeg_get_def)
  have "wave_loop limit adj br [(''A'', 0), (''B'', 1), (''C'', 1), (''D'', 2)] [''A''] [] {}
        = wave_loop limit adj br [(''A'', 0), (''B'', 0), (''C'', 0), (''D'', 2)] [''B'', ''C''] [[''A'']] {''A''}"
    by (subst wave_loop.simps) (simp only: l f1 s1 Let_def fst_conv snd_conv list.simps if_False append_Nil)
  also have "\<dots> = wave_loop limit adj br [(''A'', 0), (''B'', 0), (''C'', 0), (''D'', 0)] [''D'']
                     [[''A''], [''B'', ''C'']] {''C'', ''B'', ''A''}"
    by (subst wave_loop.simps) (simp only: l f2 s2 Let_def fst_conv snd_conv list.simps if_False append.simps)
  also have "\<dots> = wave_loop limit adj br [(''A'', 0), (''B'', 0), (''C'', 0), (''D'', 0)] []
                     [[''A''], [''B'', ''C''], [''D'']] {''D'', ''C'', ''B'', ''A''}"
    by (subst wave_loop.simps) (simp only: l f3 s3 Let_def fst_conv snd_conv list.simps if_False append.simps)
  also have "\<dots> = Some \<lparr>r_waves = [[''A''], [''B'', ''C''], [''D'']], r_scheduled = {''D'', ''C'', ''B'', ''A''},
                       r_indeg = [(''A'', 0), (''B'', 0), (''C'', 0), (''D'', 0)]\<rparr>"
    by (subst wave_loop.simps) (simp only: simp_thms if_True)
  finally show ?thesis by simp
qed

lemma abcd_critical_path:
  "critical_path (node_ids_of (scan_jobs abcd_docs)) (all_edges_of (scan_jobs abcd_docs))
     (weights_of (scan_jobs abcd_docs)) = Some ([''A'', ''C'', ''D''], 5, True)"
  by code_simp

lemma abcd_orchestrate:
  assumes "2 \<le> limit"
  shows "map_option o_waves (orchestrate limit abcd_docs) = Some [[''A''], [''B'', ''C''], [''D'']]
         \<and> map_option o_critical_path (orchestrate limit abcd_docs) = Some ([''A'', ''C'', ''D''], 5, True)"
proof -
  let ?r = "scheduler_waves limit (scan_jobs abcd_docs)"
  have w: "map_option r_waves ?r = Some [[''A''], [''B'', ''C''], [''D'']]"
    unfolding scheduler_waves_def Let_def abcd_tables
    by (rule abcd_wave_loop [OF abcd_tables(2-8) assms])
  then obtain r where r: "?r = Some r" "r_waves r = [[''A''], [''B'', ''C''], [''D'']]" by auto
  then show ?thesis
    by (simp add: orchestrate_def Let_def abcd_critical_path)
qed

text \<open>
  Claim C5: for every set of plan documents and every positive concurrency limit the
  scheduler returns a wave sequence in which each job comes strictly after all of its
  dependencies that are in the active set (this holds with or without cycles: a job on
  a cycle is never scheduled). For the jobs \<open>A\<close> (1h), \<open>B\<close> (1h, after \<open>A\<close>), \<open>C\<close> (3h,
  after \<open>A\<close>), \<open>D\<close> (1h, after \<open>B\<close> and \<open>C\<close>) and any limit of at least 2 the waves are
  \<open>[[A], [B, C], [D]]\<close> and the critical path is \<open>A, C, D\<close> with 5 hours.
\<close>

theorem scheduler_waves_topological:
  "(0 < limit \<longrightarrow>
      (\<exists>r. scheduler_waves limit (scan_jobs docs) = Some r
         \<and> waves_respect_dependencies (scan_jobs docs) (r_waves r)))
   \<and> (2 \<le> limit' \<longrightarrow>
        map_option o_waves (orchestrate limit' abcd_docs) = Some [[''A''], [''B'', ''C''], [''D'']]
        \<and> map_option o_critical_path (orchestrate limit' abcd_docs)
            = Some ([''A'', ''C'', ''D''], 5, True))"
proof (intro conjI impI)
  assume l: "0 < limit"
  from wave_loop_total [OF l] obtain r where r: "scheduler_waves limit (scan_jobs docs) = Some r"
    unfolding scheduler_waves_def Let_def by blast
  from scheduler_waves_valid [OF distinct_scan_jobs scan_jobs_keys_nonempty r] r
  show "\<exists>r. scheduler_waves limit (scan_jobs docs) = Some r
         \<and> waves_respect_dependencies (scan_jobs docs) (r_waves r)" by blast
next
  assume "2 \<le> limit'"
  from abcd_orchestrate [OF this]
  show "map_option o_waves (orchestrate limit' abcd_docs) = Some [[''A''], [''B'', ''C''], [''D'']]"
    and "map_option o_critical_path (orchestrate limit' abcd_docs)
            = Some ([''A'', ''C'', ''D''], 5, True)" by simp_all
qed

theorem scheduler_waves_topological_witness:
  "map_option r_waves (scheduler_waves 2 (scan_jobs abcd_docs)) = Some [[''A''], [''B'', ''C''], [''D'']]
   \<and> waves_respect_dependencies (scan_jobs abcd_docs) [[''A''], [''B'', ''C''], [''D'']]
   \<and> map_option o_waves (orchestrate 3 abcd_docs) = Some [[''A''], [''B'', ''C''], [''D'']]
   \<and> map_option o_critical_path (orchestrate 3 abcd_docs) = Some ([''A'', ''C'', ''D''], 5, True)"
proof -
  have w: "map_option r_waves (scheduler_waves 2 (scan_jobs abcd_docs))
           = Some [[''A''], [''B'', ''C''], [''D'']]" by code_simp
  from scheduler_waves_topological [of 2 abcd_docs 3] obtain r where
    r: "scheduler_waves 2 (scan_jobs abcd_docs) = Some r"
       "waves_respect_dependencies (scan_jobs abcd_docs) (r_waves r)" by auto
  from r(1) w have "r_waves r = [[''A''], [''B'', ''C''], [''D'']]" by simp
  with r(2) have "waves_respect_dependencies (scan_jobs abcd_docs) [[''A''], [''B'', ''C''], [''D'']]"
    by simp
  with w scheduler_waves_topological [of 2 abcd_docs 3] show ?thesis by simp
qed

section \<open>Completion transaction (job\_complete.py)\<close>

subsection \<open>Text helpers\<close>

text \<open>Decimal rendering of an integer, as an f-string renders it.\<close>

fun show_nat :: "nat \<Rightarrow> string" where
  "show_nat n =
     (if n < 10 then [char_of (48 + n)] else show_nat (n div 10) @ [char_of (48 + n mod 10)])"

definition show_int :: "int \<Rightarrow> string" where
  "show_int i = (if i < 0 then CHR ''-'' # show_nat (nat (- i)) else show_nat (nat i))"

text \<open>\<^verbatim>\<open>body.split(heading, 1)\<close> when the heading occurs: the text before and after it.\<close>

fun split_first :: "string \<Rightarrow> string \<Rightarrow> (string \<times> string) option" where
  "split_first h [] = (if h = [] then Some ([], []) else None)"
| "split_first h (c # cs) =
     (if prefix h (c # cs) then Some ([], drop (length h) (c # cs))
      else map_option (\<lambda>pr. (c # fst pr, snd pr)) (split_first h cs))"

definition is_linebreak :: "char \<Rightarrow> bool" where
  "is_linebreak c = (c \<in> set [CHR 0x0A, CHR 0x0D, CHR 0x0B, CHR 0x0C, CHR 0x1C, CHR 0x1D, CHR 0x1E])"

text \<open>
  \<^verbatim>\<open>str.splitlines()\<close> over byte characters: a line ends at a line break, \<open>CR LF\<close> counts
  once, and there is no empty last line.
\<close>

fun splitlines_aux :: "string \<Rightarrow> string \<Rightarrow> string list" where
  "splitlines_aux acc [] = (if acc = [] then [] else [rev acc])"
| "splitlines_aux acc [c] = (if is_linebreak c then [rev acc] else [rev (c # acc)])"
| "splitlines_aux acc (c # d # cs) =
     (if c = CHR 0x0D \<and> d = CHR 0x0A then rev acc # splitlines_aux [] cs
      else if is_linebreak c then rev acc # splitlines_aux [] (d # cs)
      else splitlines_aux (c # acc) (d # cs))"

definition splitlines :: "string \<Rightarrow> string list" where
  "splitlines s = splitlines_aux [] s"

text \<open>The first index \<open>i \<ge> 1\<close> whose line starts a new heading, or the number of lines.\<close>

fun next_heading :: "nat \<Rightarrow> string list \<Rightarrow> nat" where
  "next_heading i [] = i"
| "next_heading i (row # rows) = (if prefix ''# '' row then i else next_heading (Suc i) rows)"

definition append_progress_log :: "string \<Rightarrow> string \<Rightarrow> string" where
  "append_progress_log body line =
     (let heading = ''# Progress Log'' in
      case split_first heading body of
        None \<Rightarrow> rstrip body @ [CHR 0x0A, CHR 0x0A] @ heading @ [CHR 0x0A, CHR 0x0A] @ ''- '' @ line @ [CHR 0x0A]
      | Some pr \<Rightarrow>
          let rest_lines = splitlines (snd pr);
              insert_at = (if rest_lines = [] then 0 else next_heading 1 (tl rest_lines));
              new_rest = take insert_at rest_lines @ [''- '' @ line] @ drop insert_at rest_lines
          in rstrip (fst pr @ heading @ [CHR 0x0A] @ join [CHR 0x0A] new_rest) @ [CHR 0x0A])"

subsection \<open>The job record and its surroundings\<close>

text \<open>
  The fields of a job's plan that the completion transaction and the loop executor read
  or write. Numbers are what \<^verbatim>\<open>int(fm.get(k) or 0)\<close> yields.
\<close>

record job_fm =
  j_status :: string
  j_depends_on :: str_list_value
  j_reward_target :: int
  j_reward_last_score :: int
  j_reward_last_eval_at :: string
  j_truth_last_status :: string
  j_truth_last_failures :: str_list_value
  j_outputs :: str_list_value
  j_verification_evidence :: str_list_value
  j_started_at :: string
  j_completed_at :: string
  j_updated_at :: string
  j_iteration :: int
  j_body :: string

text \<open>
  The file system below the job directory: the size of the regular file at a relative
  path, if there is one.
\<close>

type_synonym files = "string \<Rightarrow> nat option"

definition file_exists_nonempty :: "files \<Rightarrow> string \<Rightarrow> bool" where
  "file_exists_nonempty fs p = (case fs p of None \<Rightarrow> False | Some size_bytes \<Rightarrow> 0 < size_bytes)"

text \<open>
  \<^verbatim>\<open>project_root.glob("workstreams/WS-*/jobs/{dep}-*/plan.md")\<close>: the plans a dependency
  identifier matches, read from disk.
\<close>

type_synonym plan_glob = "string \<Rightarrow> job_fm list"

definition dependency_gate_errors :: "plan_glob \<Rightarrow> job_fm \<Rightarrow> string list" where
  "dependency_gate_errors plans fm =
     concat (map (\<lambda>dep.
        case plans dep of
          [dep_doc] \<Rightarrow>
            (let dep_status = status_or_planned (j_status dep_doc) in
             if dep_status \<noteq> ''done''
             then [''dependency gate: '' @ dep @ '' status is '' @ dep_status @ '', expected done'']
             else [])
        | _ \<Rightarrow> [''dependency gate: required dependency '' @ dep @ '' missing''])
      (normalize_str_list (j_depends_on fm)))"

text \<open>
  \<^verbatim>\<open>fm.get("outputs", []) or []\<close>, split at commas when it is one string. A list is
  taken as it stands.
\<close>

fun declared_paths :: "str_list_value \<Rightarrow> string list" where
  "declared_paths VNone = []"
| "declared_paths (VList vs) = vs"
| "declared_paths (VStr s) = filter (\<lambda>o'. o' \<noteq> []) (map strip (split_comma s))"

text \<open>\<^verbatim>\<open>repr\<close> of a string, without its escapes.\<close>

definition repr_str :: "string \<Rightarrow> string" where
  "repr_str s = [CHR 0x27] @ s @ [CHR 0x27]"

definition gating_errors :: "plan_glob \<Rightarrow> files \<Rightarrow> job_fm \<Rightarrow> string list" where
  "gating_errors plans fs fm =
     (let target = j_reward_target fm;
          score = j_reward_last_score fm;
          truth_status = lower (strip (j_truth_last_status fm));
          truth_failures = normalize_str_list (j_truth_last_failures fm)
      in (if score < target
          then [''reward_last_score '' @ show_int score @ '' < reward_target '' @ show_int target]
          else [])
       @ (if strip (j_reward_last_eval_at fm) = [] then [''reward_last_eval_at is empty''] else [])
       @ (if truth_status \<noteq> ''pass''
          then [''truth_last_status is '' @ repr_str truth_status @ '', expected '' @ repr_str ''pass'']
          else [])
       @ (if truth_failures \<noteq> []
          then [''truth failures present: '' @ join ''; '' (take 3 truth_failures)]
          else [])
       @ dependency_gate_errors plans fm
       @ map (\<lambda>out_rel. ''missing/empty declared output '' @ out_rel)
           (filter (\<lambda>out_rel. \<not> file_exists_nonempty fs out_rel) (declared_paths (j_outputs fm)))
       @ map (\<lambda>ev_rel. ''missing/empty verification evidence '' @ ev_rel)
           (filter (\<lambda>ev_rel. \<not> file_exists_nonempty fs ev_rel)
              (declared_paths (j_verification_evidence fm))))"

text \<open>
  What the transaction meets outside itself, in the order it meets it: the project's
  agreement flag, the plan at the first read, the time stamps, the dependency plans at
  the early gate, whether the tracker, dashboard and evaluator scripts ran through, the
  plan after the snapshot script, and the plan, dependency plans and files as the
  evaluators left them (read by \<^verbatim>\<open>gating_errors\<close> and by the \<^verbatim>\<open>read_md\<close> after it),
  and whether the scripts after the commit ran through.
\<close>

record jc_env =
  e_agreement_status :: string
  e_doc0 :: job_fm
  e_ts :: string
  e_ts_dep_fail :: string
  e_plans0 :: plan_glob
  e_pre_scripts_ok :: bool
  e_ts_attempt :: string
  e_doc1 :: job_fm
  e_evals_ok :: bool
  e_doc2 :: job_fm
  e_plans2 :: plan_glob
  e_files2 :: files
  e_ts_fail :: string
  e_ts_ok :: string
  e_post_scripts_ok :: bool

datatype jc_outcome =
    Aborted string
  | DependencyGateFailed "string list"
  | ScriptFailed
  | GateFailed "string list"
  | Completed
  | PostCommitFailed

text \<open>
  The result: how the transaction ended, the status it assigned to the job (if it
  assigned one), and the plans it wrote, in order.
\<close>

record jc_result =
  jc_outcome :: jc_outcome
  jc_status_set :: "string option"
  jc_writes :: "job_fm list"

definition is_blocking_error :: "string \<Rightarrow> bool" where
  "is_blocking_error e = (prefix ''dependency gate'' e \<or> sublist ''snapshot stale'' e)"

definition job_complete :: "jc_env \<Rightarrow> jc_result" where
  "job_complete env =
     (if strip (e_agreement_status env) \<noteq> ''agreed''
      then \<lparr>jc_outcome = Aborted ''agreement_status must be agreed before job completion'',
            jc_status_set = None, jc_writes = []\<rparr>
      else
        let doc = e_doc0 env;
            prev_status = status_or_planned (j_status doc)
        in if prev_status = ''cancelled''
           then \<lparr>jc_outcome = Aborted ''Cannot complete cancelled job'',
                 jc_status_set = None, jc_writes = []\<rparr>
           else
             let doc = (if strip (j_started_at doc) = [] then doc\<lparr>j_started_at := e_ts env\<rparr> else doc);
                 doc = doc\<lparr>j_iteration := (if j_iteration doc \<le> 0 then 1 else j_iteration doc),
                           j_updated_at := e_ts env\<rparr>;
                 dep_errors = dependency_gate_errors (e_plans0 env) doc
             in if dep_errors \<noteq> []
                then
                  \<lparr>jc_outcome = DependencyGateFailed dep_errors,
                   jc_status_set = Some ''blocked'',
                   jc_writes = [doc,
                     doc\<lparr>j_status := ''blocked'', j_completed_at := [],
                         j_updated_at := e_ts_dep_fail env,
                         j_body := append_progress_log (j_body doc)
                           (e_ts_dep_fail env @ '' job_complete: FAILED dependency gate; status=blocked; errors: ''
                             @ join '', '' (take 5 dep_errors))\<rparr>]\<rparr>
                else if \<not> e_pre_scripts_ok env
                then \<lparr>jc_outcome = ScriptFailed, jc_status_set = None, jc_writes = [doc]\<rparr>
                else
                  let attempt_doc = (e_doc1 env)
                        \<lparr>j_updated_at := e_ts_attempt env,
                         j_body := append_progress_log (j_body (e_doc1 env))
                           (e_ts_attempt env @ '' job_complete: attempting completion (prev_status=''
                             @ prev_status @ '')'')\<rparr>
                  in if \<not> e_evals_ok env
                     then \<lparr>jc_outcome = ScriptFailed, jc_status_set = None, jc_writes = [doc, attempt_doc]\<rparr>
                     else
                       let errors = gating_errors (e_plans2 env) (e_files2 env) (e_doc2 env) in
                       if errors \<noteq> []
                       then
                         let fail_status = (if list_ex is_blocking_error errors then ''blocked'' else ''in_progress'');
                             new_status = (if prev_status \<noteq> ''done'' then fail_status else prev_status)
                         in \<lparr>jc_outcome = GateFailed errors,
                             jc_status_set = Some new_status,
                             jc_writes = [doc, attempt_doc,
                               (e_doc2 env)\<lparr>j_status := new_status, j_completed_at := [],
                                 j_updated_at := e_ts_fail env,
                                 j_body := append_progress_log (j_body (e_doc2 env))
                                   (e_ts_fail env @ '' job_complete: FAILED gate; reverting to '' @ new_status
                                     @ ''; errors: '' @ join '', '' (take 5 errors))\<rparr>]\<rparr>
                       else
                         \<lparr>jc_outcome = (if e_post_scripts_ok env then Completed else PostCommitFailed),
                          jc_status_set = Some ''done'',
                          jc_writes = [doc, attempt_doc,
                            (e_doc2 env)\<lparr>j_status := ''done'', j_completed_at := e_ts_ok env,
                              j_body := append_progress_log (j_body (e_doc2 env))
                                (e_ts_ok env @ '' job_complete: gate PASSED; status=done confirmed''),
                              j_updated_at := e_ts_ok env\<rparr>]\<rparr>)"

text \<open>
  The process exit code: \<open>0\<close> when the script runs to its end, \<open>1\<close> for
  \<^verbatim>\<open>SystemExit(message)\<close> and for an uncaught exception.
\<close>

definition jc_exit_code :: "jc_result \<Rightarrow> int" where
  "jc_exit_code r = (if jc_outcome r = Completed then 0 else 1)"

text \<open>The conditions of the completion gate, read off the state the gate looks at.\<close>

definition dependencies_done :: "plan_glob \<Rightarrow> job_fm \<Rightarrow> bool" where
  "dependencies_done plans fm =
     list_all (\<lambda>dep. case plans dep of
                  [dep_doc] \<Rightarrow> status_or_planned (j_status dep_doc) = ''done''
                | _ \<Rightarrow> False)
       (normalize_str_list (j_depends_on fm))"

definition gates_hold :: "plan_glob \<Rightarrow> files \<Rightarrow> job_fm \<Rightarrow> bool" where
  "gates_hold plans fs fm =
     (dependencies_done plans fm
      \<and> lower (strip (j_truth_last_status fm)) = ''pass''
      \<and> normalize_str_list (j_truth_last_failures fm) = []
      \<and> j_reward_target fm \<le> j_reward_last_score fm
      \<and> list_all (file_exists_nonempty fs) (declared_paths (j_outputs fm))
      \<and> list_all (file_exists_nonempty fs) (declared_paths (j_verification_evidence fm)))"


subsection \<open>The gate and the status the transaction writes\<close>

lemma dependency_gate_errors_empty:
  "dependency_gate_errors plans fm = [] \<longleftrightarrow> dependencies_done plans fm"
proof -
  have "(case plans dep of
          [dep_doc] \<Rightarrow>
            (let dep_status = status_or_planned (j_status dep_doc) in
             if dep_status \<noteq> ''done''
             then [''dependency gate: '' @ dep @ '' status is '' @ dep_status @ '', expected done'']
             else [])
        | _ \<Rightarrow> [''dependency gate: required dependency '' @ dep @ '' missing'']) = []
        \<longleftrightarrow> (case plans dep of
                  [dep_doc] \<Rightarrow> status_or_planned (j_status dep_doc) = ''done''
                | _ \<Rightarrow> False)" for dep
    by (simp add: Let_def split: list.splits)
  then show ?thesis
    unfolding dependency_gate_errors_def dependencies_done_def list_all_iff
    by simp
qed

lemma gating_errors_empty:
  "gating_errors plans fs fm = []
   \<longleftrightarrow> gates_hold plans fs fm \<and> strip (j_reward_last_eval_at fm) \<noteq> []"
  unfolding gating_errors_def gates_hold_def Let_def
  by (auto simp: dependency_gate_errors_empty list_all_iff filter_empty_conv)

lemma dependency_gate_errors_cong:
  "j_depends_on fm = j_depends_on fm' \<Longrightarrow>
   dependency_gate_errors plans fm = dependency_gate_errors plans fm'"
  by (simp add: dependency_gate_errors_def)

definition early_doc :: "jc_env \<Rightarrow> job_fm" where
  "early_doc env =
     (let doc = e_doc0 env;
          doc = (if strip (j_started_at doc) = [] then doc\<lparr>j_started_at := e_ts env\<rparr> else doc)
      in doc\<lparr>j_iteration := (if j_iteration doc \<le> 0 then 1 else j_iteration doc),
              j_updated_at := e_ts env\<rparr>)"

lemma early_gate_eq:
  "dependency_gate_errors plans
     ((if strip (j_started_at d) = [] then d\<lparr>j_started_at := t\<rparr> else d)
        \<lparr>j_iteration := i, j_updated_at := u\<rparr>)
   = dependency_gate_errors plans d"
  by (rule dependency_gate_errors_cong) simp

lemma job_complete_gate_failed:
  assumes "strip (e_agreement_status env) = ''agreed''"
    and "status_or_planned (j_status (e_doc0 env)) \<noteq> ''cancelled''"
    and "dependency_gate_errors (e_plans0 env) (e_doc0 env) = []"
    and "e_pre_scripts_ok env" and "e_evals_ok env"
    and "gating_errors (e_plans2 env) (e_files2 env) (e_doc2 env) \<noteq> []"
  shows "jc_outcome (job_complete env)
           = GateFailed (gating_errors (e_plans2 env) (e_files2 env) (e_doc2 env))"
    and "jc_status_set (job_complete env)
           = Some (if status_or_planned (j_status (e_doc0 env)) \<noteq> ''done''
                   then (if list_ex is_blocking_error
                              (gating_errors (e_plans2 env) (e_files2 env) (e_doc2 env))
                         then ''blocked'' else ''in_progress'')
                   else ''done'')"
    and "j_status (last (jc_writes (job_complete env))) = the (jc_status_set (job_complete env))"
    and "j_completed_at (last (jc_writes (job_complete env))) = []"
  using assms
  by (simp_all add: job_complete_def Let_def early_gate_eq)

lemma job_complete_done_set:
  assumes "jc_status_set (job_complete env) = Some ''done''"
    and "status_or_planned (j_status (e_doc0 env)) \<noteq> ''done''"
  shows "gates_hold (e_plans2 env) (e_files2 env) (e_doc2 env)"
  using assms
  by (auto simp: job_complete_def Let_def gating_errors_empty split: if_splits)

lemma job_complete_completed:
  assumes "jc_outcome (job_complete env) = Completed"
  shows "gates_hold (e_plans2 env) (e_files2 env) (e_doc2 env)
         \<and> jc_status_set (job_complete env) = Some ''done''"
  using assms
  by (auto simp: job_complete_def Let_def gating_errors_empty split: if_splits)

definition base_job :: job_fm where
  "base_job =
     \<lparr> j_status = ''in_progress'', j_depends_on = VNone,
       j_reward_target = 80, j_reward_last_score = 90,
       j_reward_last_eval_at = ''2026-01-01T00:00:00Z'',
       j_truth_last_status = ''pass'', j_truth_last_failures = VNone,
       j_outputs = VList [''outputs/primary.md''],
       j_verification_evidence = VList [''artifacts/verification.md''],
       j_started_at = ''2026-01-01T00:00:00Z'', j_completed_at = [],
       j_updated_at = ''2026-01-01T00:00:00Z'', j_iteration = 1, j_body = [] \<rparr>"

definition base_files :: files where
  "base_files p = (if p \<in> set [''outputs/primary.md'', ''artifacts/verification.md''] then Some 10 else None)"

definition base_env :: jc_env where
  "base_env =
     \<lparr> e_agreement_status = ''agreed'', e_doc0 = base_job, e_ts = ''t0'', e_ts_dep_fail = ''t1'',
       e_plans0 = (\<lambda>_. []), e_pre_scripts_ok = True, e_ts_attempt = ''t2'', e_doc1 = base_job,
       e_evals_ok = True, e_doc2 = base_job, e_plans2 = (\<lambda>_. []), e_files2 = base_files,
       e_ts_fail = ''t3'', e_ts_ok = ''t4'', e_post_scripts_ok = True \<rparr>"

definition low_score_env :: jc_env where
  "low_score_env = base_env\<lparr>e_doc2 := base_job\<lparr>j_reward_last_score := 10\<rparr>\<rparr>"

text \<open>A job that is already \<open>done\<close> and is completed once more, with a score below target.\<close>

definition done_job :: job_fm where
  "done_job = base_job\<lparr>j_status := ''done'', j_completed_at := ''2026-01-01T01:00:00Z''\<rparr>"

definition redo_done_env :: jc_env where
  "redo_done_env =
     base_env\<lparr>e_doc0 := done_job, e_doc1 := done_job, e_doc2 := done_job\<lparr>j_reward_last_score := 10\<rparr>\<rparr>"

text \<open>
  Claim C7: when the gate re-evaluation of the completion transaction fails, the job is
  never left \<open>done\<close>. When the job was already \<open>done\<close> before the transaction, the
  failure branch assigns the previous status again. Here the gate fails (score 10
  below target 80), the transaction ends with the failure list and exit code 1, and
  the record it writes has status \<open>done\<close> and an empty completion time stamp.
\<close>

theorem gate_failure_keeps_done:
  "status_or_planned (j_status (e_doc0 redo_done_env)) = ''done''
   \<and> jc_outcome (job_complete redo_done_env) = GateFailed [''reward_last_score 10 < reward_target 80'']
   \<and> jc_exit_code (job_complete redo_done_env) = 1
   \<and> jc_status_set (job_complete redo_done_env) = Some ''done''
   \<and> j_status (last (jc_writes (job_complete redo_done_env))) = ''done''
   \<and> j_completed_at (last (jc_writes (job_complete redo_done_env))) = []"
  by code_simp

text \<open>
  For a job that was not \<open>done\<close> before the transaction the status is reverted: when
  the gate re-evaluation produces any failure, the transaction ends with the full
  failure list and a non-zero exit code, the status it writes is \<open>blocked\<close> if some
  failure starts with \<open>dependency gate\<close> or contains \<open>snapshot stale\<close>, and
  \<open>in_progress\<close> otherwise, and the completion time stamp is cleared.
\<close>

theorem gate_failure_reverts_status:
  assumes "strip (e_agreement_status env) = ''agreed''"
    and "status_or_planned (j_status (e_doc0 env)) \<noteq> ''cancelled''"
    and "status_or_planned (j_status (e_doc0 env)) \<noteq> ''done''"
    and "dependency_gate_errors (e_plans0 env) (e_doc0 env) = []"
    and "e_pre_scripts_ok env" and "e_evals_ok env"
    and "errors = gating_errors (e_plans2 env) (e_files2 env) (e_doc2 env)"
    and "errors \<noteq> []"
  shows "jc_outcome (job_complete env) = GateFailed errors
         \<and> jc_exit_code (job_complete env) \<noteq> 0
         \<and> jc_status_set (job_complete env)
             = Some (if list_ex is_blocking_error errors then ''blocked'' else ''in_progress'')
         \<and> j_status (last (jc_writes (job_complete env)))
             = (if list_ex is_blocking_error errors then ''blocked'' else ''in_progress'')
         \<and> j_status (last (jc_writes (job_complete env))) \<noteq> ''done''
         \<and> j_completed_at (last (jc_writes (job_complete env))) = []"
proof -
  from assms(7,8) have e: "gating_errors (e_plans2 env) (e_files2 env) (e_doc2 env) \<noteq> []" by simp
  note f = job_complete_gate_failed [OF assms(1,2,4,5,6) e]
  from f(1) have x: "jc_exit_code (job_complete env) \<noteq> 0" by (simp add: jc_exit_code_def)
  from f(2) assms(3,7)
  have s: "jc_status_set (job_complete env)
             = Some (if list_ex is_blocking_error errors then ''blocked'' else ''in_progress'')"
    by simp
  with f(3) have w: "j_status (last (jc_writes (job_complete env)))
             = (if list_ex is_blocking_error errors then ''blocked'' else ''in_progress'')"
    by simp
  then have n: "j_status (last (jc_writes (job_complete env))) \<noteq> ''done''" by simp
  from f(1) assms(7) x s w n f(4) show ?thesis by simp
qed

theorem gate_failure_reverts_status_witness:
  "jc_outcome (job_complete low_score_env) = GateFailed [''reward_last_score 10 < reward_target 80'']
   \<and> jc_status_set (job_complete low_score_env) = Some ''in_progress''
   \<and> j_completed_at (last (jc_writes (job_complete low_score_env))) = []"
proof -
  have a: "strip (e_agreement_status low_score_env) = ''agreed''" by code_simp
  have b: "status_or_planned (j_status (e_doc0 low_score_env)) \<noteq> ''cancelled''" by code_simp
  have c: "status_or_planned (j_status (e_doc0 low_score_env)) \<noteq> ''done''" by code_simp
  have d: "dependency_gate_errors (e_plans0 low_score_env) (e_doc0 low_score_env) = []" by code_simp
  have e: "e_pre_scripts_ok low_score_env" by code_simp
  have f: "e_evals_ok low_score_env" by code_simp
  have g: "[''reward_last_score 10 < reward_target 80'']
           = gating_errors (e_plans2 low_score_env) (e_files2 low_score_env) (e_doc2 low_score_env)"
    by code_simp
  have h: "[''reward_last_score 10 < reward_target 80''] \<noteq> ([] :: string list)" by simp
  have i: "\<not> list_ex is_blocking_error [''reward_last_score 10 < reward_target 80'']" by code_simp
  from gate_failure_reverts_status [OF a b c d e f g h] i show ?thesis by simp
qed


subsection \<open>The progress log\<close>

lemma join_insert:
  "join sep (xs @ [l] @ ys)
     = (if xs = [] then [] else join sep xs @ sep) @ l @ (if ys = [] then [] else sep @ join sep ys)"
proof (induction xs rule: join.induct [of _ sep])
  case (1 sep')
  show ?case by (cases ys) simp_all
next
  case (2 sep' x)
  show ?case by (cases ys) simp_all
next
  case (3 sep' x y zs)
  then show ?case by simp
qed

lemma rstrip_keeps:
  assumes "l \<noteq> []" and "\<not> is_space (last l)"
  shows "\<exists>b'. rstrip (a @ l @ b) = a @ l @ b' \<and> (b' = [] \<or> (\<exists>b''. b = b' @ b''))"
proof (cases "\<forall>c \<in> set b. is_space c")
  case True
  then have "dropWhile is_space (rev b @ rev l @ rev a) = dropWhile is_space (rev l @ rev a)"
    by (intro dropWhile_append2) auto
  also from assms have "\<dots> = rev l @ rev a"
    by (cases "rev l") (auto simp: last_rev [symmetric] hd_rev)
  finally show ?thesis by (simp add: rstrip_def)
next
  case False
  then obtain x where "x \<in> set (rev b)" "\<not> is_space x" by auto
  then have "dropWhile is_space (rev b @ rev l @ rev a) = dropWhile is_space (rev b) @ rev l @ rev a"
    by (rule dropWhile_append1)
  then have "rstrip (a @ l @ b) = a @ l @ rev (dropWhile is_space (rev b))"
    by (simp add: rstrip_def)
  moreover have "b = rev (dropWhile is_space (rev b)) @ rev (takeWhile is_space (rev b))"
    by (metis rev_append rev_rev_ident takeWhile_dropWhile_id)
  ultimately show ?thesis by blast
qed

text \<open>
  The new body holds the line, as a line of its own: after a line feed, and followed by
  one.
\<close>

lemma append_progress_log_line:
  assumes "line \<noteq> []" and "\<not> is_space (last line)"
  shows "\<exists>before after. append_progress_log body line
           = before @ [CHR 0x0A] @ ''- '' @ line @ [CHR 0x0A] @ after"
proof (cases "split_first ''# Progress Log'' body")
  case None
  then have "append_progress_log body line
      = (rstrip body @ [CHR 0x0A, CHR 0x0A] @ ''# Progress Log'' @ [CHR 0x0A]) @ [CHR 0x0A]
          @ ''- '' @ line @ [CHR 0x0A] @ []"
    by (simp add: append_progress_log_def)
  then show ?thesis by blast
next
  case (Some pr)
  define rest_lines where "rest_lines = splitlines (snd pr)"
  define insert_at where "insert_at = (if rest_lines = [] then 0 else next_heading 1 (tl rest_lines))"
  define xs where "xs = take insert_at rest_lines"
  define ys where "ys = drop insert_at rest_lines"
  define l where "l = ''- '' @ line"
  have l: "l \<noteq> []" "\<not> is_space (last l)" using assms by (simp_all add: l_def)
  have apl: "append_progress_log body line
      = rstrip (fst pr @ ''# Progress Log'' @ [CHR 0x0A] @ join [CHR 0x0A] (xs @ [l] @ ys)) @ [CHR 0x0A]"
    using Some
    by (simp add: append_progress_log_def Let_def rest_lines_def insert_at_def xs_def ys_def l_def)
  define a where "a = (fst pr @ ''# Progress Log'') @ (if xs = [] then [] else [CHR 0x0A] @ join [CHR 0x0A] xs)"
  define b where "b = (if ys = [] then [] else [CHR 0x0A] @ join [CHR 0x0A] ys)"
  have whole: "fst pr @ ''# Progress Log'' @ [CHR 0x0A] @ join [CHR 0x0A] (xs @ [l] @ ys)
      = (a @ [CHR 0x0A]) @ l @ b"
    unfolding join_insert a_def b_def by simp
  from rstrip_keeps [OF l, of "a @ [CHR 0x0A]" b] obtain b' where
    r: "rstrip ((a @ [CHR 0x0A]) @ l @ b) = (a @ [CHR 0x0A]) @ l @ b'"
    and p: "b' = [] \<or> (\<exists>b''. b = b' @ b'')" by blast
  have "\<exists>after. b' @ [CHR 0x0A] = [CHR 0x0A] @ after"
  proof (cases "b' = []")
    case True
    then show ?thesis by simp
  next
    case False
    with p obtain b'' where bb: "b = b' @ b''" by blast
    with False have "b \<noteq> []" by auto
    then have "b = [CHR 0x0A] @ join [CHR 0x0A] ys" by (simp add: b_def split: if_splits)
    with bb False obtain t where "b' = CHR 0x0A # t" by (cases b') auto
    then show ?thesis by simp
  qed
  then obtain after where "b' @ [CHR 0x0A] = [CHR 0x0A] @ after" ..
  then have "append_progress_log body line = a @ [CHR 0x0A] @ l @ [CHR 0x0A] @ after"
    unfolding apl whole r by simp
  then have "append_progress_log body line = a @ [CHR 0x0A] @ ''- '' @ line @ [CHR 0x0A] @ after"
    by (simp add: l_def)
  then show ?thesis by blast
qed

section \<open>Loop executor (loop\_job.py)\<close>

text \<open>\<^verbatim>\<open>" ".join(raw.strip().split())\<close>: the words of a text, single-spaced.\<close>

fun split_ws_aux :: "string \<Rightarrow> string \<Rightarrow> string list" where
  "split_ws_aux acc [] = (if acc = [] then [] else [rev acc])"
| "split_ws_aux acc (c # cs) =
     (if is_space c then (if acc = [] then split_ws_aux [] cs else rev acc # split_ws_aux [] cs)
      else split_ws_aux (c # acc) cs)"

definition normalize_promise :: "string \<Rightarrow> string" where
  "normalize_promise raw = join '' '' (split_ws_aux [] (strip raw))"

record loop_config =
  c_loop_mode :: string
  c_max_loops :: int
  c_completion_promise :: string

definition require_promise :: "loop_config \<Rightarrow> bool" where
  "require_promise cfg = (c_loop_mode cfg \<in> set [''until_complete'', ''promise_or_max''])"

definition completion_ready :: "files \<Rightarrow> job_fm \<Rightarrow> bool \<Rightarrow> string \<Rightarrow> string \<Rightarrow> bool" where
  "completion_ready fs fm req_promise target_promise last_promise =
     (if j_reward_last_score fm < j_reward_target fm then False
      else if lower (strip (j_truth_last_status fm)) \<noteq> ''pass'' then False
      else
        let outputs = normalize_str_list (j_outputs fm);
            evidence = normalize_str_list (j_verification_evidence fm)
        in if outputs = [] \<or> evidence = [] then False
           else if list_ex (\<lambda>rel. \<not> file_exists_nonempty fs rel) outputs then False
           else if list_ex (\<lambda>rel. \<not> file_exists_nonempty fs rel) evidence then False
           else if req_promise \<and> target_promise \<noteq> []
           then normalize_promise last_promise = normalize_promise target_promise
           else True)"

text \<open>
  What one pass through the loop body meets: whether the wall-clock budget is spent,
  whether the cancel marker exists, the runner's exit code and promise, the failing gate
  stage (or none), the plan and files \<^verbatim>\<open>completion_ready\<close> reads, and what the
  completion transaction meets when it is invoked.
\<close>

record attempt_env =
  a_walltime_exceeded :: bool
  a_cancel_marker :: bool
  a_exit_code :: int
  a_last_promise :: string
  a_gate_failure :: "string option"
  a_plan :: job_fm
  a_files :: files
  a_completion :: jc_env

text \<open>
  The loop's variables, the rows it appended to the execution log (attempt number and
  exit code) and the statuses it assigned to the job record.
\<close>

record loop_state =
  s_attempt :: int
  s_last_attempt :: int
  s_executions :: "(int \<times> int) list"
  s_status_sets :: "string list"

record loop_outcome =
  l_loop_status :: string
  l_stop_reason :: string
  l_final_code :: int
  l_loop_done :: bool
  l_last_attempt :: int
  l_executions :: "(int \<times> int) list"
  l_status_sets :: "string list"

definition finish :: "loop_state \<Rightarrow> string \<Rightarrow> string \<Rightarrow> int \<Rightarrow> bool \<Rightarrow> loop_outcome" where
  "finish st loop_status stop_reason final_code loop_done =
     \<lparr> l_loop_status = loop_status,
       l_stop_reason = (if stop_reason \<noteq> [] then stop_reason
                        else if loop_done then ''completed'' else ''error''),
       l_final_code = final_code,
       l_loop_done = loop_done,
       l_last_attempt = s_last_attempt st,
       l_executions = s_executions st,
       l_status_sets = s_status_sets st \<rparr>"

text \<open>One pass through the body of \<^verbatim>\<open>while True\<close>: the loop goes on, or it breaks.\<close>

definition loop_iteration :: "loop_config \<Rightarrow> loop_state \<Rightarrow> attempt_env \<Rightarrow> loop_state + loop_outcome" where
  "loop_iteration cfg st e =
     (if a_walltime_exceeded e then Inr (finish st ''blocked'' ''timeout'' 0 False)
      else if 0 < c_max_loops cfg \<and> c_max_loops cfg < s_attempt st
      then Inr (finish st ''blocked'' ''max_iterations'' 0 False)
      else if a_cancel_marker e then Inr (finish st ''stopped'' ''cancel'' 0 False)
      else
        let attempt = s_attempt st;
            st = st\<lparr>s_status_sets := s_status_sets st @ [''in_progress''],
                    s_executions := s_executions st @ [(attempt, a_exit_code e)],
                    s_last_attempt := attempt\<rparr>
        in if a_exit_code e \<noteq> 0
           then Inr (finish st ''error'' (''exit_code_'' @ show_int (a_exit_code e)) (a_exit_code e) False)
           else
             case a_gate_failure e of
               Some gate_stage \<Rightarrow> Inl (st\<lparr>s_attempt := attempt + 1\<rparr>)
             | None \<Rightarrow>
                 if completion_ready (a_files e) (a_plan e) (require_promise cfg)
                      (c_completion_promise cfg) (a_last_promise e)
                 then
                   let complete_code = jc_exit_code (job_complete (a_completion e)) in
                   if complete_code = 0
                   then Inr (finish (st\<lparr>s_status_sets := s_status_sets st @ [''done'']\<rparr>) ''completed''
                          (if require_promise cfg \<and> a_last_promise e \<noteq> [] then ''promise_detected''
                           else ''completed'') 0 True)
                   else Inr (finish st ''error'' ''job_complete_failed'' complete_code False)
                 else Inl (st\<lparr>s_attempt := attempt + 1\<rparr>))"

text \<open>
  The loop over the passes the environment offers. The Python loop need not end (no
  finite cap and gates that never pass); \<open>None\<close> says that the passes given were all
  used and the loop is still running.
\<close>

fun run_loop :: "loop_config \<Rightarrow> loop_state \<Rightarrow> attempt_env list \<Rightarrow> loop_outcome option" where
  "run_loop cfg st [] = None"
| "run_loop cfg st (e # es) =
     (case loop_iteration cfg st e of
        Inl st' \<Rightarrow> run_loop cfg st' es
      | Inr out \<Rightarrow> Some out)"

text \<open>\<^verbatim>\<open>_start_attempt\<close> for a fresh start, and the state the loop starts in.\<close>

definition start_state :: "int \<Rightarrow> loop_state" where
  "start_state base =
     \<lparr> s_attempt = max 1 base, s_last_attempt = max 1 base, s_executions = [], s_status_sets = [] \<rparr>"

text \<open>
  The exit status the operating system reports for \<^verbatim>\<open>SystemExit(code)\<close>: the low eight
  bits of the code. A runner killed by signal \<open>N\<close> has return code \<open>-N\<close>.
\<close>

definition exit_status :: "int \<Rightarrow> int" where
  "exit_status code = code mod 256"

text \<open>
  The end of \<^verbatim>\<open>main\<close>: return (exit status \<open>0\<close>) when the loop is done, otherwise
  \<^verbatim>\<open>SystemExit(1)\<close> for \<open>blocked\<close>, \<^verbatim>\<open>SystemExit(final_code or 1)\<close> for \<open>error\<close>, and
  \<^verbatim>\<open>SystemExit(1)\<close> for anything else.
\<close>

definition loop_exit_code :: "loop_outcome \<Rightarrow> int" where
  "loop_exit_code out =
     (if l_loop_done out then 0
      else if l_loop_status out = ''blocked'' then exit_status 1
      else if l_loop_status out = ''error''
      then exit_status (if l_final_code out \<noteq> 0 then l_final_code out else 1)
      else exit_status 1)"

subsection \<open>Outcomes of the loop\<close>

lemma loop_iteration_break_cases:
  assumes "loop_iteration cfg st e = Inr out"
  shows "(l_loop_status out = ''blocked'' \<and> \<not> l_loop_done out \<and> l_status_sets out = s_status_sets st
            \<and> l_executions out = s_executions st)
         \<or> (l_loop_status out = ''stopped'' \<and> \<not> l_loop_done out \<and> l_status_sets out = s_status_sets st
            \<and> l_executions out = s_executions st)
         \<or> (l_loop_status out = ''error'' \<and> \<not> l_loop_done out \<and> a_exit_code e \<noteq> 0
            \<and> l_stop_reason out = ''exit_code_'' @ show_int (a_exit_code e)
            \<and> l_final_code out = a_exit_code e
            \<and> l_executions out = s_executions st @ [(s_attempt st, a_exit_code e)]
            \<and> l_status_sets out = s_status_sets st @ [''in_progress''])
         \<or> (l_loop_status out = ''error'' \<and> \<not> l_loop_done out \<and> a_exit_code e = 0
            \<and> l_stop_reason out = ''job_complete_failed''
            \<and> l_final_code out = jc_exit_code (job_complete (a_completion e))
            \<and> jc_exit_code (job_complete (a_completion e)) = 1
            \<and> l_executions out = s_executions st @ [(s_attempt st, 0)]
            \<and> l_status_sets out = s_status_sets st @ [''in_progress''])
         \<or> (l_loop_status out = ''completed'' \<and> l_loop_done out \<and> a_exit_code e = 0
            \<and> l_final_code out = 0
            \<and> jc_outcome (job_complete (a_completion e)) = Completed
            \<and> l_executions out = s_executions st @ [(s_attempt st, 0)]
            \<and> l_status_sets out = s_status_sets st @ [''in_progress'', ''done''])"
proof -
  consider (timeout) "a_walltime_exceeded e"
    | (cap) "\<not> a_walltime_exceeded e" "0 < c_max_loops cfg \<and> c_max_loops cfg < s_attempt st"
    | (cancel) "\<not> a_walltime_exceeded e" "\<not> (0 < c_max_loops cfg \<and> c_max_loops cfg < s_attempt st)"
        "a_cancel_marker e"
    | (run) "\<not> a_walltime_exceeded e" "\<not> (0 < c_max_loops cfg \<and> c_max_loops cfg < s_attempt st)"
        "\<not> a_cancel_marker e"
    by blast
  then show ?thesis
  proof cases
    case timeout
    with assms have "out = finish st ''blocked'' ''timeout'' 0 False"
      by (simp add: loop_iteration_def)
    then show ?thesis by (simp add: finish_def)
  next
    case cap
    from assms have "out = finish st ''blocked'' ''max_iterations'' 0 False"
      by (simp add: loop_iteration_def cap)
    then show ?thesis by (simp add: finish_def)
  next
    case cancel
    from assms have "out = finish st ''stopped'' ''cancel'' 0 False"
      by (simp add: loop_iteration_def cancel)
    then show ?thesis by (simp add: finish_def)
  next
    case run
    let ?st = "st\<lparr>s_status_sets := s_status_sets st @ [''in_progress''],
                    s_executions := s_executions st @ [(s_attempt st, a_exit_code e)],
                    s_last_attempt := s_attempt st\<rparr>"
    show ?thesis
    proof (cases "a_exit_code e = 0")
      case False
      with assms have "out = finish ?st ''error'' (''exit_code_'' @ show_int (a_exit_code e)) (a_exit_code e) False"
        by (simp add: loop_iteration_def Let_def run)
      with False show ?thesis by (simp add: finish_def)
    next
      case True
      with assms obtain
        g: "a_gate_failure e = None"
        and r: "completion_ready (a_files e) (a_plan e) (require_promise cfg)
                  (c_completion_promise cfg) (a_last_promise e)"
        by (auto simp: loop_iteration_def Let_def run split: option.splits if_splits)
      show ?thesis
      proof (cases "jc_outcome (job_complete (a_completion e)) = Completed")
        case c: True
        with assms True g r
        have "out = finish (?st\<lparr>s_status_sets := s_status_sets ?st @ [''done'']\<rparr>) ''completed''
                (if require_promise cfg \<and> a_last_promise e \<noteq> [] then ''promise_detected''
                 else ''completed'') 0 True"
          by (simp add: loop_iteration_def Let_def jc_exit_code_def run)
        with True c show ?thesis by (simp add: finish_def)
      next
        case c: False
        with assms True g r
        have "out = finish ?st ''error'' ''job_complete_failed'' 1 False"
          by (simp add: loop_iteration_def Let_def jc_exit_code_def run)
        with True c show ?thesis by (simp add: finish_def jc_exit_code_def)
      qed
    qed
  qed
qed

lemma loop_iteration_continue:
  assumes "loop_iteration cfg st e = Inl st'"
  shows "s_status_sets st' = s_status_sets st @ [''in_progress'']
         \<and> s_executions st' = s_executions st @ [(s_attempt st, 0)]"
proof -
  from assms have c: "\<not> a_walltime_exceeded e"
    "\<not> (0 < c_max_loops cfg \<and> c_max_loops cfg < s_attempt st)" "\<not> a_cancel_marker e"
    by (auto simp: loop_iteration_def split: if_splits)
  from assms have z: "a_exit_code e = 0"
    by (auto simp: loop_iteration_def Let_def c split: if_splits)
  from assms have "st' = st\<lparr>s_status_sets := s_status_sets st @ [''in_progress''],
                    s_executions := s_executions st @ [(s_attempt st, a_exit_code e)],
                    s_last_attempt := s_attempt st, s_attempt := s_attempt st + 1\<rparr>"
    by (auto simp: loop_iteration_def Let_def c z split: if_splits option.splits)
  with z show ?thesis by simp
qed

lemma loop_iteration_nonzero_exit:
  assumes "\<not> a_walltime_exceeded e" and "\<not> (0 < c_max_loops cfg \<and> c_max_loops cfg < s_attempt st)"
    and "\<not> a_cancel_marker e" and "a_exit_code e \<noteq> 0"
  shows "loop_iteration cfg st e
         = Inr \<lparr> l_loop_status = ''error'',
                l_stop_reason = ''exit_code_'' @ show_int (a_exit_code e),
                l_final_code = a_exit_code e, l_loop_done = False,
                l_last_attempt = s_attempt st,
                l_executions = s_executions st @ [(s_attempt st, a_exit_code e)],
                l_status_sets = s_status_sets st @ [''in_progress''] \<rparr>"
  by (simp add: loop_iteration_def finish_def Let_def assms)

definition outcome_exit_ok :: "loop_outcome \<Rightarrow> bool" where
  "outcome_exit_ok out =
     (l_loop_status out \<in> set [''completed'', ''error'', ''blocked'', ''stopped'']
      \<and> (l_loop_status out = ''completed'' \<longrightarrow> loop_exit_code out = 0)
      \<and> (l_loop_status out \<in> set [''blocked'', ''stopped''] \<longrightarrow> loop_exit_code out = 1)
      \<and> (l_loop_status out = ''error'' \<longrightarrow>
            l_executions out \<noteq> []
            \<and> (if l_stop_reason out = ''job_complete_failed''
                then snd (last (l_executions out)) = 0 \<and> loop_exit_code out = 1
                else snd (last (l_executions out)) \<noteq> 0
                   \<and> loop_exit_code out = snd (last (l_executions out)) mod 256
                   \<and> (0 < snd (last (l_executions out)) \<and> snd (last (l_executions out)) < 256
                        \<longrightarrow> loop_exit_code out = snd (last (l_executions out)))
                   \<and> (- 256 < snd (last (l_executions out)) \<and> snd (last (l_executions out)) < 256
                        \<longrightarrow> loop_exit_code out \<noteq> 0))))"

lemma exit_status_range:
  "exit_status 1 = 1"
  "0 < c \<and> c < 256 \<Longrightarrow> exit_status c = c"
  "- 256 < c \<and> c < 256 \<Longrightarrow> c \<noteq> 0 \<Longrightarrow> exit_status c \<noteq> 0"
proof -
  show "exit_status 1 = 1" by (simp add: exit_status_def)
  show "exit_status c = c" if "0 < c \<and> c < 256" using that by (simp add: exit_status_def)
  show "exit_status c \<noteq> 0" if "- 256 < c \<and> c < 256" "c \<noteq> 0"
  proof
    assume "exit_status c = 0"
    then have "256 dvd c" by (simp add: exit_status_def mod_eq_0_iff_dvd)
    then obtain k where "c = 256 * k" ..
    with that show False by auto
  qed
qed

lemma exit_code_reason_neq: "''exit_code_'' @ s \<noteq> ''job_complete_failed''"
  by simp

lemma loop_iteration_exit_ok:
  assumes "loop_iteration cfg st e = Inr out"
  shows "outcome_exit_ok out"
  using loop_iteration_break_cases [OF assms]
  unfolding outcome_exit_ok_def loop_exit_code_def
  by (elim disjE) (auto simp: exit_code_reason_neq exit_status_range exit_status_def [of "a_exit_code e"])

lemma run_loop_exit_ok:
  "run_loop cfg st es = Some out \<Longrightarrow> outcome_exit_ok out"
proof (induction es arbitrary: st)
  case Nil
  then show ?case by simp
next
  case (Cons e es)
  show ?case
  proof (cases "loop_iteration cfg st e")
    case (Inl st')
    with Cons show ?thesis by simp
  next
    case (Inr o')
    with Cons.prems have "o' = out" by simp
    with Inr show ?thesis by (simp add: loop_iteration_exit_ok)
  qed
qed

lemma run_loop_done:
  "run_loop cfg st es = Some out \<Longrightarrow> ''done'' \<notin> set (s_status_sets st) \<Longrightarrow>
   ''done'' \<in> set (l_status_sets out) \<Longrightarrow>
   \<exists>e \<in> set es. jc_outcome (job_complete (a_completion e)) = Completed"
proof (induction es arbitrary: st)
  case Nil
  then show ?case by simp
next
  case (Cons e es)
  show ?case
  proof (cases "loop_iteration cfg st e")
    case (Inl st')
    from loop_iteration_continue [OF Inl] Cons.prems(2)
    have "''done'' \<notin> set (s_status_sets st')" by simp
    with Cons Inl show ?thesis by simp
  next
    case (Inr o')
    with Cons.prems have "o' = out" by simp
    with Inr loop_iteration_break_cases [of cfg st e out] Cons.prems(2,3)
    have "jc_outcome (job_complete (a_completion e)) = Completed" by auto
    then show ?thesis by simp
  qed
qed

definition until_complete_cfg :: loop_config where
  "until_complete_cfg = \<lparr>c_loop_mode = ''until_complete'', c_max_loops = 2, c_completion_promise = ''WI-DONE''\<rparr>"

definition good_attempt :: attempt_env where
  "good_attempt =
     \<lparr> a_walltime_exceeded = False, a_cancel_marker = False, a_exit_code = 0,
       a_last_promise = ''WI-DONE'', a_gate_failure = None, a_plan = base_job,
       a_files = base_files, a_completion = base_env \<rparr>"

definition failing_completion_attempt :: attempt_env where
  "failing_completion_attempt = good_attempt\<lparr>a_completion := base_env\<lparr>e_pre_scripts_ok := False\<rparr>\<rparr>"

definition exit7_attempt :: attempt_env where
  "exit7_attempt = good_attempt\<lparr>a_exit_code := 7\<rparr>"

text \<open>A runner attempt that is killed by signal 9: its return code is \<open>-9\<close>.\<close>

definition killed_attempt :: attempt_env where
  "killed_attempt = good_attempt\<lparr>a_exit_code := - 9\<rparr>"

text \<open>
  Claim C8, as stated, gives the runner's own exit code as the process exit code whenever
  the loop ends in \<open>error\<close>. The loop also ends in \<open>error\<close> when the runner exits with
  \<open>0\<close>, the gates pass and the completion transaction fails; the process exit code is
  then the transaction's (\<open>1\<close>), not the runner's (\<open>0\<close>). And when the runner is killed
  by signal 9 the loop ends in \<open>error\<close> with the return code \<open>-9\<close>, and the process exits
  with status \<open>247\<close>.
\<close>

theorem loop_error_exit_code_counterexample:
  "map_option l_loop_status (run_loop until_complete_cfg (start_state 0) [failing_completion_attempt])
     = Some ''error''
   \<and> map_option l_stop_reason (run_loop until_complete_cfg (start_state 0) [failing_completion_attempt])
     = Some ''job_complete_failed''
   \<and> map_option l_executions (run_loop until_complete_cfg (start_state 0) [failing_completion_attempt])
     = Some [(1, 0)]
   \<and> map_option loop_exit_code (run_loop until_complete_cfg (start_state 0) [failing_completion_attempt])
     = Some 1
   \<and> map_option l_loop_status (run_loop until_complete_cfg (start_state 0) [killed_attempt])
     = Some ''error''
   \<and> map_option l_executions (run_loop until_complete_cfg (start_state 0) [killed_attempt])
     = Some [(1, - 9)]
   \<and> map_option loop_exit_code (run_loop until_complete_cfg (start_state 0) [killed_attempt])
     = Some 247"
  by code_simp

text \<open>
  Claim C8, amended: a non-zero return code of a runner attempt ends the loop at once in
  state \<open>error\<close> with reason \<open>exit_code_N\<close>, whatever the environment would offer
  afterwards (the execution log ends with that attempt), and the process exits with the
  low eight bits of that code: the runner's own code when it lies in \<open>1..255\<close>, and a
  non-zero status for every non-zero code between \<open>-256\<close> and \<open>256\<close>. Every outcome of the
  loop is \<open>completed\<close>, \<open>error\<close>, \<open>blocked\<close> or \<open>stopped\<close>; the process exit status is \<open>0\<close>
  for \<open>completed\<close>, \<open>1\<close> for \<open>blocked\<close> and \<open>stopped\<close>, and for \<open>error\<close> it is the low
  eight bits of the last runner attempt's code when that was non-zero, and the
  completion transaction's exit code \<open>1\<close> when the reason is \<open>job_complete_failed\<close> (the
  runner's code was \<open>0\<close>).
\<close>

theorem loop_exit_codes:
  "(\<not> a_walltime_exceeded e \<and> \<not> (0 < c_max_loops cfg \<and> c_max_loops cfg < s_attempt st)
      \<and> \<not> a_cancel_marker e \<and> a_exit_code e \<noteq> 0 \<longrightarrow>
      (\<exists>out. run_loop cfg st (e # rest) = Some out
         \<and> l_loop_status out = ''error''
         \<and> l_stop_reason out = ''exit_code_'' @ show_int (a_exit_code e)
         \<and> l_executions out = s_executions st @ [(s_attempt st, a_exit_code e)]
         \<and> loop_exit_code out = a_exit_code e mod 256
         \<and> (0 < a_exit_code e \<and> a_exit_code e < 256 \<longrightarrow> loop_exit_code out = a_exit_code e)
         \<and> (- 256 < a_exit_code e \<and> a_exit_code e < 256 \<longrightarrow> loop_exit_code out \<noteq> 0)))
   \<and> (run_loop cfg st es = Some out' \<longrightarrow> outcome_exit_ok out')"
proof (intro conjI impI)
  assume a: "\<not> a_walltime_exceeded e \<and> \<not> (0 < c_max_loops cfg \<and> c_max_loops cfg < s_attempt st)
      \<and> \<not> a_cancel_marker e \<and> a_exit_code e \<noteq> 0"
  let ?out = "\<lparr> l_loop_status = ''error'',
                l_stop_reason = ''exit_code_'' @ show_int (a_exit_code e),
                l_final_code = a_exit_code e, l_loop_done = False,
                l_last_attempt = s_attempt st,
                l_executions = s_executions st @ [(s_attempt st, a_exit_code e)],
                l_status_sets = s_status_sets st @ [''in_progress''] \<rparr>"
  from a have i: "loop_iteration cfg st e = Inr ?out"
    by (intro loop_iteration_nonzero_exit) simp_all
  from a have x: "loop_exit_code ?out = exit_status (a_exit_code e)"
    by (simp add: loop_exit_code_def)
  have m: "loop_exit_code ?out = a_exit_code e mod 256" unfolding x exit_status_def ..
  have r: "loop_exit_code ?out = a_exit_code e" if "0 < a_exit_code e \<and> a_exit_code e < 256"
    unfolding x using that by (rule exit_status_range(2))
  have n: "loop_exit_code ?out \<noteq> 0" if "- 256 < a_exit_code e \<and> a_exit_code e < 256"
    unfolding x using that a by (intro exit_status_range(3)) simp_all
  have "run_loop cfg st (e # rest) = Some ?out" by (simp add: i)
  with m r n show "\<exists>out. run_loop cfg st (e # rest) = Some out
         \<and> l_loop_status out = ''error''
         \<and> l_stop_reason out = ''exit_code_'' @ show_int (a_exit_code e)
         \<and> l_executions out = s_executions st @ [(s_attempt st, a_exit_code e)]
         \<and> loop_exit_code out = a_exit_code e mod 256
         \<and> (0 < a_exit_code e \<and> a_exit_code e < 256 \<longrightarrow> loop_exit_code out = a_exit_code e)
         \<and> (- 256 < a_exit_code e \<and> a_exit_code e < 256 \<longrightarrow> loop_exit_code out \<noteq> 0)"
    by (intro exI [of _ ?out]) simp
next
  assume "run_loop cfg st es = Some out'"
  then show "outcome_exit_ok out'" by (rule run_loop_exit_ok)
qed

theorem loop_exit_codes_witness:
  "map_option l_loop_status (run_loop until_complete_cfg (start_state 0) [exit7_attempt, good_attempt])
     = Some ''error''
   \<and> map_option l_stop_reason (run_loop until_complete_cfg (start_state 0) [exit7_attempt, good_attempt])
     = Some ''exit_code_7''
   \<and> map_option l_executions (run_loop until_complete_cfg (start_state 0) [exit7_attempt, good_attempt])
     = Some [(1, 7)]
   \<and> map_option loop_exit_code (run_loop until_complete_cfg (start_state 0) [exit7_attempt, good_attempt])
     = Some 7
   \<and> map_option loop_exit_code (run_loop until_complete_cfg (start_state 0) [good_attempt]) = Some 0
   \<and> map_option outcome_exit_ok (run_loop until_complete_cfg (start_state 0) [good_attempt]) = Some True"
proof -
  have p: "\<not> a_walltime_exceeded exit7_attempt
      \<and> \<not> (0 < c_max_loops until_complete_cfg \<and> c_max_loops until_complete_cfg < s_attempt (start_state 0))
      \<and> \<not> a_cancel_marker exit7_attempt \<and> a_exit_code exit7_attempt \<noteq> 0"
    by code_simp
  have v: "a_exit_code exit7_attempt = 7" "s_executions (start_state 0) = []"
    "s_attempt (start_state 0) = 1" "show_int 7 = ''7''"
    by code_simp+
  have g: "map_option loop_exit_code (run_loop until_complete_cfg (start_state 0) [good_attempt]) = Some 0"
    by code_simp
  then obtain o2 where o2: "run_loop until_complete_cfg (start_state 0) [good_attempt] = Some o2"
    by auto
  from loop_exit_codes [of exit7_attempt until_complete_cfg "start_state 0" "[good_attempt]"
      "[good_attempt]" o2] p o2
  obtain out where out: "run_loop until_complete_cfg (start_state 0) [exit7_attempt, good_attempt] = Some out"
    "l_loop_status out = ''error''"
    "l_stop_reason out = ''exit_code_'' @ show_int (a_exit_code exit7_attempt)"
    "l_executions out = s_executions (start_state 0) @ [(s_attempt (start_state 0), a_exit_code exit7_attempt)]"
    "0 < a_exit_code exit7_attempt \<and> a_exit_code exit7_attempt < 256
       \<longrightarrow> loop_exit_code out = a_exit_code exit7_attempt"
    and ok: "outcome_exit_ok o2"
    by blast
  from out ok o2 g show ?thesis by (simp add: v)
qed

text \<open>
  Claim C1: \<open>done\<close> is written onto a job record only when the completion gates hold.
  The failure branch of the completion transaction writes the previous status back
  when that was \<open>done\<close>. Here a job that is already \<open>done\<close> is completed again, the
  gates do not hold (score 10 below target 80), the transaction fails with exit code 1,
  and the status it writes is \<open>done\<close>.
\<close>

theorem done_written_without_gates:
  "status_or_planned (j_status (e_doc0 redo_done_env)) = ''done''
   \<and> gating_errors (e_plans2 redo_done_env) (e_files2 redo_done_env) (e_doc2 redo_done_env)
       = [''reward_last_score 10 < reward_target 80'']
   \<and> \<not> gates_hold (e_plans2 redo_done_env) (e_files2 redo_done_env) (e_doc2 redo_done_env)
   \<and> jc_exit_code (job_complete redo_done_env) = 1
   \<and> jc_status_set (job_complete redo_done_env) = Some ''done''
   \<and> j_status (last (jc_writes (job_complete redo_done_env))) = ''done''"
  by code_simp

text \<open>
  Every other assignment of \<open>done\<close> goes through the gates: whenever the completion
  transaction assigns status \<open>done\<close> to a job whose status before the transaction was
  not \<open>done\<close>, then in the state the gate decision read every dependency matched
  exactly one plan with status \<open>done\<close>, the truth status was \<open>pass\<close> with no recorded
  failures, the reward score was at least the target, and every declared output and
  evidence file existed with non-zero size. The loop executor assigns \<open>done\<close> only
  after a completion transaction of one of its attempts ran to its end, and for that
  transaction the same conditions held.
\<close>

theorem done_only_through_gates:
  "(jc_status_set (job_complete env) = Some ''done''
      \<and> status_or_planned (j_status (e_doc0 env)) \<noteq> ''done''
      \<longrightarrow> gates_hold (e_plans2 env) (e_files2 env) (e_doc2 env))
   \<and> (run_loop cfg (start_state base) es = Some out \<and> ''done'' \<in> set (l_status_sets out)
      \<longrightarrow> (\<exists>e \<in> set es. jc_outcome (job_complete (a_completion e)) = Completed
             \<and> gates_hold (e_plans2 (a_completion e)) (e_files2 (a_completion e))
                  (e_doc2 (a_completion e))))"
proof (intro conjI impI)
  assume "jc_status_set (job_complete env) = Some ''done''
      \<and> status_or_planned (j_status (e_doc0 env)) \<noteq> ''done''"
  then show "gates_hold (e_plans2 env) (e_files2 env) (e_doc2 env)"
    using job_complete_done_set by blast
next
  assume a: "run_loop cfg (start_state base) es = Some out \<and> ''done'' \<in> set (l_status_sets out)"
  have "''done'' \<notin> set (s_status_sets (start_state base))" by (simp add: start_state_def)
  with a run_loop_done [of cfg "start_state base" es out]
  obtain e where "e \<in> set es" "jc_outcome (job_complete (a_completion e)) = Completed" by blast
  with job_complete_completed [of "a_completion e"]
  show "\<exists>e \<in> set es. jc_outcome (job_complete (a_completion e)) = Completed
             \<and> gates_hold (e_plans2 (a_completion e)) (e_files2 (a_completion e))
                  (e_doc2 (a_completion e))" by blast
qed

theorem done_only_through_gates_witness:
  "jc_status_set (job_complete base_env) = Some ''done''
   \<and> gates_hold (e_plans2 base_env) (e_files2 base_env) (e_doc2 base_env)
   \<and> map_option l_status_sets (run_loop until_complete_cfg (start_state 0) [good_attempt])
       = Some [''in_progress'', ''done'']"
proof -
  have a: "jc_status_set (job_complete base_env) = Some ''done''" by code_simp
  have b: "status_or_planned (j_status (e_doc0 base_env)) \<noteq> ''done''" by code_simp
  have c: "map_option l_status_sets (run_loop until_complete_cfg (start_state 0) [good_attempt])
       = Some [''in_progress'', ''done'']" by code_simp
  from done_only_through_gates [of base_env until_complete_cfg 0 "[]" "finish (start_state 0) [] [] 0 False"] a b
  have "gates_hold (e_plans2 base_env) (e_files2 base_env) (e_doc2 base_env)" by blast
  with a c show ?thesis by simp
qed

section \<open>Snapshot comparison and invalidation (invalidate\_downstream.py)\<close>

subsection \<open>Comparing a stored snapshot with the current fingerprints\<close>

text \<open>
  One fingerprint: the dependency, its declared output, and what was found on disk.
  Modification times are Python floats; the model uses real numbers.
\<close>

record snap_entry =
  dependency_work_item_id :: string
  declared_output :: string
  exists_flag :: bool
  sha256 :: string
  mtime :: "real option"
  size_bytes :: "int option"

text \<open>
  The value of \<open>truth_input_snapshot\<close> in a plan: missing (\<^verbatim>\<open>None\<close>, \<^verbatim>\<open>""\<close>, \<^verbatim>\<open>[]\<close> or
  \<^verbatim>\<open>{}\<close>), a path (with the entries of the JSON file it names, when the file exists and
  parses), or entries stored inline. The JSON decoding itself is outside the model.
\<close>

datatype snapshot_value =
    SMissing
  | SPath string "snap_entry list option"
  | SInline "snap_entry list"

definition entry_sort_key :: "snap_entry \<Rightarrow> string \<times> string" where
  "entry_sort_key e = (dependency_work_item_id e, declared_output e)"

definition tidy_entry :: "snap_entry \<Rightarrow> snap_entry" where
  "tidy_entry e =
     e\<lparr>dependency_work_item_id := strip (dependency_work_item_id e),
       declared_output := strip (declared_output e),
       sha256 := strip (sha256 e)\<rparr>"

definition tidy_entries :: "snap_entry list \<Rightarrow> snap_entry list" where
  "tidy_entries es =
     sort_key entry_sort_key
       (filter (\<lambda>e. strip (dependency_work_item_id e) \<noteq> []) (map tidy_entry es))"

fun normalize_snapshot_entries :: "snapshot_value \<Rightarrow> snap_entry list" where
  "normalize_snapshot_entries SMissing = []"
| "normalize_snapshot_entries (SPath path_text content) =
     (if strip path_text = [] then []
      else case content of None \<Rightarrow> [] | Some es \<Rightarrow> tidy_entries es)"
| "normalize_snapshot_entries (SInline es) = tidy_entries es"

text \<open>\<^verbatim>\<open>round(x, 6)\<close> on exact numbers: to the nearest millionth, ties to even.\<close>

definition round6 :: "real \<Rightarrow> real" where
  "round6 x =
     (let y = x * 1000000; f = \<lfloor>y\<rfloor>; d = y - of_int f
      in of_int (if d < 1 / 2 then f else if 1 / 2 < d then f + 1
                 else if even f then f else f + 1) / 1000000)"

definition normalize_mtime :: "real option \<Rightarrow> real option" where
  "normalize_mtime v = map_option round6 v"

record canon_entry =
  c_exists :: bool
  c_sha256 :: string
  c_mtime :: "real option"
  c_size_bytes :: "int option"

type_synonym canon_map = "(string \<times> canon_entry) list"

definition entry_key :: "snap_entry \<Rightarrow> string" where
  "entry_key item = strip (dependency_work_item_id item) @ ''::'' @ strip (declared_output item)"

definition canon_of :: "snap_entry \<Rightarrow> canon_entry" where
  "canon_of item =
     \<lparr> c_exists = exists_flag item, c_sha256 = strip (sha256 item),
       c_mtime = normalize_mtime (mtime item), c_size_bytes = size_bytes item \<rparr>"

definition canonicalize :: "snap_entry list \<Rightarrow> canon_map" where
  "canonicalize entries = fold (\<lambda>item out. AList.update (entry_key item) (canon_of item) out) entries []"

definition show_bool :: "bool \<Rightarrow> string" where
  "show_bool b = (if b then ''True'' else ''False'')"

text \<open>The reason given when the two key sets differ.\<close>

definition key_set_reason :: "string list \<Rightarrow> string list \<Rightarrow> string" where
  "key_set_reason current_keys stored_keys =
     (let only_current = sort (remdups (filter (\<lambda>k. k \<notin> set stored_keys) current_keys));
          only_stored = sort (remdups (filter (\<lambda>k. k \<notin> set current_keys) stored_keys));
          parts = (if only_current \<noteq> [] then [''new inputs: '' @ join '', '' (take 3 only_current)] else [])
                @ (if only_stored \<noteq> [] then [''removed inputs: '' @ join '', '' (take 3 only_stored)] else [])
      in if parts \<noteq> [] then join ''; '' parts else ''input key set changed'')"

text \<open>The loop over the sorted keys; both maps hold every key it visits.\<close>

fun compare_keys :: "canon_map \<Rightarrow> canon_map \<Rightarrow> string list \<Rightarrow> bool \<times> string" where
  "compare_keys current_map stored_map [] = (True, [])"
| "compare_keys current_map stored_map (k # ks) =
     (case (map_of current_map k, map_of stored_map k) of
        (Some current_entry, Some stored_entry) \<Rightarrow>
          if c_exists current_entry \<noteq> c_exists stored_entry
          then (False, k @ '' exists changed ('' @ show_bool (c_exists stored_entry) @ '' -> ''
                         @ show_bool (c_exists current_entry) @ '')'')
          else if c_sha256 current_entry \<noteq> c_sha256 stored_entry then (False, k @ '' hash changed'')
          else if c_mtime current_entry \<noteq> c_mtime stored_entry then (False, k @ '' mtime changed'')
          else compare_keys current_map stored_map ks
      | _ \<Rightarrow> compare_keys current_map stored_map ks)"

definition compare_snapshot :: "snap_entry list \<Rightarrow> snapshot_value \<Rightarrow> bool \<times> string" where
  "compare_snapshot current_entries truth_snapshot_value =
     (let stored_entries = normalize_snapshot_entries truth_snapshot_value in
      if stored_entries = [] \<and> current_entries = [] then (True, [])
      else if stored_entries = [] then (False, ''truth_input_snapshot has no comparable entries'')
      else
        let current_map = canonicalize current_entries;
            stored_map = canonicalize stored_entries;
            current_keys = sort (map fst current_map);
            stored_keys = sort (map fst stored_map)
        in if current_keys \<noteq> stored_keys then (False, key_set_reason current_keys stored_keys)
           else compare_keys current_map stored_map current_keys)"


subsection \<open>The verdict of the comparison\<close>

lemma distinct_fold_update:
  "distinct (map fst out) \<Longrightarrow>
   distinct (map fst (fold (\<lambda>item out. AList.update (kf item) (vf item) out) entries out))"
  by (induction entries arbitrary: out) (simp_all add: distinct_update)

lemma distinct_canonicalize: "distinct (map fst (canonicalize entries))"
  unfolding canonicalize_def by (rule distinct_fold_update) simp

lemma keys_fold_update:
  "fst ` set (fold (\<lambda>item out. AList.update (kf item) (vf item) out) entries out)
   = fst ` set out \<union> kf ` set entries"
  by (induction entries arbitrary: out) (auto simp: dom_update)

lemma keys_canonicalize: "fst ` set (canonicalize entries) = entry_key ` set entries"
  unfolding canonicalize_def by (simp add: keys_fold_update)

lemma canonicalize_empty: "canonicalize entries = [] \<longleftrightarrow> entries = []"
proof
  assume "canonicalize entries = []"
  then have "fst ` set (canonicalize entries) = {}" by simp
  then show "entries = []" by (simp add: keys_canonicalize)
qed (simp add: canonicalize_def)

lemma sorted_keys_eq_iff:
  assumes "distinct xs" and "distinct ys"
  shows "sort xs = sort ys \<longleftrightarrow> set xs = set ys"
proof
  assume "sort xs = sort ys"
  then have "set (sort xs) = set (sort ys)" by simp
  then show "set xs = set ys" by simp
next
  assume "set xs = set ys"
  with assms have "mset xs = mset ys" by (simp add: set_eq_iff_mset_eq_distinct)
  then show "sort xs = sort ys" by (metis properties_for_sort mset_sort sorted_sort)
qed

definition key_set :: "canon_map \<Rightarrow> string set" where
  "key_set m = fst ` set m"

definition exists_flip :: "canon_map \<Rightarrow> canon_map \<Rightarrow> string \<Rightarrow> bool" where
  "exists_flip cm sm k =
     (case (map_of cm k, map_of sm k) of (Some c, Some s) \<Rightarrow> c_exists c \<noteq> c_exists s | _ \<Rightarrow> False)"

definition hash_mismatch :: "canon_map \<Rightarrow> canon_map \<Rightarrow> string \<Rightarrow> bool" where
  "hash_mismatch cm sm k =
     (case (map_of cm k, map_of sm k) of (Some c, Some s) \<Rightarrow> c_sha256 c \<noteq> c_sha256 s | _ \<Rightarrow> False)"

definition mtime_mismatch :: "canon_map \<Rightarrow> canon_map \<Rightarrow> string \<Rightarrow> bool" where
  "mtime_mismatch cm sm k =
     (case (map_of cm k, map_of sm k) of (Some c, Some s) \<Rightarrow> c_mtime c \<noteq> c_mtime s | _ \<Rightarrow> False)"

definition any_mismatch :: "canon_map \<Rightarrow> canon_map \<Rightarrow> string \<Rightarrow> bool" where
  "any_mismatch cm sm k = (exists_flip cm sm k \<or> hash_mismatch cm sm k \<or> mtime_mismatch cm sm k)"

text \<open>The reason for one key, by the order of the three tests.\<close>

definition key_reason :: "canon_map \<Rightarrow> canon_map \<Rightarrow> string \<Rightarrow> string" where
  "key_reason cm sm k =
     (if exists_flip cm sm k
      then k @ '' exists changed ('' @ show_bool (c_exists (the (map_of sm k))) @ '' -> ''
             @ show_bool (c_exists (the (map_of cm k))) @ '')''
      else if hash_mismatch cm sm k then k @ '' hash changed''
      else k @ '' mtime changed'')"

lemma compare_keys_pass:
  "fst (compare_keys cm sm ks) \<longleftrightarrow> (\<forall>k \<in> set ks. \<not> any_mismatch cm sm k)"
  by (induction ks)
     (auto simp: any_mismatch_def exists_flip_def hash_mismatch_def mtime_mismatch_def
           split: option.splits)

lemma compare_keys_pass_reason: "fst (compare_keys cm sm ks) \<Longrightarrow> snd (compare_keys cm sm ks) = []"
  by (induction ks) (auto split: option.splits if_splits)

lemma compare_keys_first:
  "\<not> fst (compare_keys cm sm ks) \<Longrightarrow>
   \<exists>ks1 k ks2. ks = ks1 @ k # ks2 \<and> (\<forall>k' \<in> set ks1. \<not> any_mismatch cm sm k')
      \<and> any_mismatch cm sm k \<and> snd (compare_keys cm sm ks) = key_reason cm sm k"
proof (induction ks)
  case Nil
  then show ?case by simp
next
  case (Cons a ks)
  show ?case
  proof (cases "any_mismatch cm sm a")
    case True
    then have "snd (compare_keys cm sm (a # ks)) = key_reason cm sm a"
      by (auto simp: any_mismatch_def exists_flip_def hash_mismatch_def mtime_mismatch_def
          key_reason_def split: option.splits)
    with True show ?thesis by (intro exI [of _ "[]"] exI [of _ a] exI [of _ ks]) simp
  next
    case False
    then have e: "compare_keys cm sm (a # ks) = compare_keys cm sm ks"
      by (auto simp: any_mismatch_def exists_flip_def hash_mismatch_def mtime_mismatch_def
          split: option.splits)
    with Cons obtain ks1 k ks2 where
      "ks = ks1 @ k # ks2" "\<forall>k' \<in> set ks1. \<not> any_mismatch cm sm k'"
      "any_mismatch cm sm k" "snd (compare_keys cm sm ks) = key_reason cm sm k"
      by auto
    with False e show ?thesis
      by (intro exI [of _ "a # ks1"] exI [of _ k] exI [of _ ks2]) simp
  qed
qed

lemma compare_snapshot_keys_differ:
  assumes "key_set (canonicalize current_entries)
           \<noteq> key_set (canonicalize (normalize_snapshot_entries stored))"
  shows "compare_snapshot current_entries stored
         = (False,
            if normalize_snapshot_entries stored = []
            then ''truth_input_snapshot has no comparable entries''
            else key_set_reason (sort (map fst (canonicalize current_entries)))
                   (sort (map fst (canonicalize (normalize_snapshot_entries stored)))))"
proof (cases "normalize_snapshot_entries stored = []")
  case True
  with assms have "current_entries \<noteq> []"
    by (auto simp: key_set_def canonicalize_def)
  with True show ?thesis by (simp add: compare_snapshot_def)
next
  case False
  from assms have "set (map fst (canonicalize current_entries))
      \<noteq> set (map fst (canonicalize (normalize_snapshot_entries stored)))"
    by (simp add: key_set_def)
  then have "sort (map fst (canonicalize current_entries))
      \<noteq> sort (map fst (canonicalize (normalize_snapshot_entries stored)))"
    using sorted_keys_eq_iff [OF distinct_canonicalize distinct_canonicalize] by blast
  with False show ?thesis by (simp add: compare_snapshot_def Let_def)
qed

lemma compare_snapshot_keys_equal:
  assumes "key_set (canonicalize current_entries)
           = key_set (canonicalize (normalize_snapshot_entries stored))"
  shows "compare_snapshot current_entries stored
         = compare_keys (canonicalize current_entries)
             (canonicalize (normalize_snapshot_entries stored))
             (sort (map fst (canonicalize current_entries)))"
proof (cases "normalize_snapshot_entries stored = []")
  case True
  with assms have "key_set (canonicalize current_entries) = {}"
    by (simp add: key_set_def canonicalize_def)
  then have "canonicalize current_entries = []" by (simp add: key_set_def)
  then have "current_entries = []" by (simp add: canonicalize_empty)
  with True show ?thesis by (simp add: compare_snapshot_def canonicalize_def)
next
  case False
  from assms have "set (map fst (canonicalize current_entries))
      = set (map fst (canonicalize (normalize_snapshot_entries stored)))"
    by (simp add: key_set_def)
  then have "sort (map fst (canonicalize current_entries))
      = sort (map fst (canonicalize (normalize_snapshot_entries stored)))"
    using sorted_keys_eq_iff [OF distinct_canonicalize distinct_canonicalize] by blast
  with False show ?thesis by (simp add: compare_snapshot_def Let_def)
qed

definition snapshot_a :: "snap_entry list" where
  "snapshot_a =
     [\<lparr>dependency_work_item_id = ''WI-1'', declared_output = ''out/a.md'', exists_flag = True,
       sha256 = ''aa'', mtime = Some 100, size_bytes = Some 3\<rparr>,
      \<lparr>dependency_work_item_id = ''WI-1'', declared_output = ''out/b.md'', exists_flag = True,
       sha256 = ''bb'', mtime = Some 100, size_bytes = Some 4\<rparr>]"

definition snapshot_a_touched :: "snap_entry list" where
  "snapshot_a_touched =
     [\<lparr>dependency_work_item_id = ''WI-1'', declared_output = ''out/a.md'', exists_flag = True,
       sha256 = ''aa'', mtime = Some 200, size_bytes = Some 3\<rparr>,
      \<lparr>dependency_work_item_id = ''WI-1'', declared_output = ''out/b.md'', exists_flag = False,
       sha256 = [], mtime = None, size_bytes = None\<rparr>]"

text \<open>
  Claim C4, as stated, ranks the three tests over all keys: any flip of the exists flag
  first, otherwise any hash mismatch, otherwise any modification-time mismatch. The
  code runs the three tests key by key, in the sorted order of the keys. Here the key
  sets agree, \<^verbatim>\<open>out/b.md\<close> has lost its file (a flip of the exists flag) and \<^verbatim>\<open>out/a.md\<close>
  has only a new modification time; the check fails on \<^verbatim>\<open>out/a.md\<close>, with the
  modification-time reason.
\<close>

theorem snapshot_precedence_counterexample:
  "key_set (canonicalize snapshot_a_touched)
     = key_set (canonicalize (normalize_snapshot_entries (SInline snapshot_a)))
   \<and> exists_flip (canonicalize snapshot_a_touched)
        (canonicalize (normalize_snapshot_entries (SInline snapshot_a))) ''WI-1::out/b.md''
   \<and> \<not> exists_flip (canonicalize snapshot_a_touched)
        (canonicalize (normalize_snapshot_entries (SInline snapshot_a))) ''WI-1::out/a.md''
   \<and> \<not> hash_mismatch (canonicalize snapshot_a_touched)
        (canonicalize (normalize_snapshot_entries (SInline snapshot_a))) ''WI-1::out/a.md''
   \<and> compare_snapshot snapshot_a_touched (SInline snapshot_a)
     = (False, ''WI-1::out/a.md mtime changed'')"
  by code_simp

text \<open>
  Claim C4, amended: the staleness check compares the two canonical maps key for key.
  \<^item> With no stored entries and no current entries it passes.
  \<^item> When the key sets differ it fails, whatever the entries hold, and the reason is the
    key-set reason (or "no comparable entries" when nothing is stored).
  \<^item> When the key sets agree it passes exactly when no key shows a flip of the exists
    flag, a hash mismatch or a modification-time mismatch.
  \<^item> The reason of a failure names the first key (in sorted order) with a mismatch, and
    for that key the exists flag is reported before the hash and the hash before the
    modification time.
\<close>

theorem snapshot_check_precedence:
  "(normalize_snapshot_entries stored = [] \<and> current_entries = []
      \<longrightarrow> compare_snapshot current_entries stored = (True, []))
   \<and> (key_set (canonicalize current_entries) \<noteq> key_set (canonicalize (normalize_snapshot_entries stored))
      \<longrightarrow> compare_snapshot current_entries stored
           = (False,
              if normalize_snapshot_entries stored = []
              then ''truth_input_snapshot has no comparable entries''
              else key_set_reason (sort (map fst (canonicalize current_entries)))
                     (sort (map fst (canonicalize (normalize_snapshot_entries stored))))))
   \<and> (key_set (canonicalize current_entries) = key_set (canonicalize (normalize_snapshot_entries stored))
      \<longrightarrow> (fst (compare_snapshot current_entries stored)
             \<longleftrightarrow> \<not> (\<exists>k. exists_flip (canonicalize current_entries)
                              (canonicalize (normalize_snapshot_entries stored)) k)
                 \<and> \<not> (\<exists>k. hash_mismatch (canonicalize current_entries)
                              (canonicalize (normalize_snapshot_entries stored)) k)
                 \<and> \<not> (\<exists>k. mtime_mismatch (canonicalize current_entries)
                              (canonicalize (normalize_snapshot_entries stored)) k))
          \<and> (fst (compare_snapshot current_entries stored)
               \<longrightarrow> snd (compare_snapshot current_entries stored) = [])
          \<and> (\<not> fst (compare_snapshot current_entries stored)
               \<longrightarrow> (\<exists>k. any_mismatch (canonicalize current_entries)
                            (canonicalize (normalize_snapshot_entries stored)) k
                        \<and> (\<forall>k'. k' < k \<longrightarrow> \<not> any_mismatch (canonicalize current_entries)
                               (canonicalize (normalize_snapshot_entries stored)) k')
                        \<and> snd (compare_snapshot current_entries stored)
                            = key_reason (canonicalize current_entries)
                                (canonicalize (normalize_snapshot_entries stored)) k)))"
proof (intro conjI impI)
  let ?cm = "canonicalize current_entries"
  let ?sm = "canonicalize (normalize_snapshot_entries stored)"
  let ?ks = "sort (map fst ?cm)"
  show "compare_snapshot current_entries stored = (True, [])"
    if "normalize_snapshot_entries stored = [] \<and> current_entries = []"
    using that by (simp add: compare_snapshot_def)
  show "compare_snapshot current_entries stored
           = (False,
              if normalize_snapshot_entries stored = []
              then ''truth_input_snapshot has no comparable entries''
              else key_set_reason (sort (map fst ?cm)) (sort (map fst ?sm)))"
    if "key_set ?cm \<noteq> key_set ?sm"
    using that by (rule compare_snapshot_keys_differ)
  assume eq: "key_set ?cm = key_set ?sm"
  note c = compare_snapshot_keys_equal [OF eq]
  have out: "\<not> any_mismatch ?cm ?sm k" if "k \<notin> set ?ks" for k
  proof -
    from that have "map_of ?cm k = None"
      by (simp add: map_of_eq_None_iff)
    then show ?thesis
      by (simp add: any_mismatch_def exists_flip_def hash_mismatch_def mtime_mismatch_def)
  qed
  have all: "(\<forall>k \<in> set ?ks. \<not> any_mismatch ?cm ?sm k) \<longleftrightarrow> (\<forall>k. \<not> any_mismatch ?cm ?sm k)"
    using out by blast
  show "fst (compare_snapshot current_entries stored)
             \<longleftrightarrow> \<not> (\<exists>k. exists_flip ?cm ?sm k) \<and> \<not> (\<exists>k. hash_mismatch ?cm ?sm k)
                 \<and> \<not> (\<exists>k. mtime_mismatch ?cm ?sm k)"
    unfolding c compare_keys_pass all by (auto simp: any_mismatch_def)
  show "snd (compare_snapshot current_entries stored) = []"
    if "fst (compare_snapshot current_entries stored)"
    using that unfolding c by (rule compare_keys_pass_reason)
  show "\<exists>k. any_mismatch ?cm ?sm k
            \<and> (\<forall>k'. k' < k \<longrightarrow> \<not> any_mismatch ?cm ?sm k')
            \<and> snd (compare_snapshot current_entries stored) = key_reason ?cm ?sm k"
    if "\<not> fst (compare_snapshot current_entries stored)"
  proof -
    from that have "\<not> fst (compare_keys ?cm ?sm ?ks)" by (simp add: c)
    from compare_keys_first [OF this] obtain ks1 k ks2 where
      ks: "?ks = ks1 @ k # ks2" and b: "\<forall>k' \<in> set ks1. \<not> any_mismatch ?cm ?sm k'"
      and m: "any_mismatch ?cm ?sm k" and r: "snd (compare_keys ?cm ?sm ?ks) = key_reason ?cm ?sm k"
      by blast
    have srt: "sorted (ks1 @ k # ks2)" using ks by (metis sorted_sort)
    have "\<not> any_mismatch ?cm ?sm k'" if lt: "k' < k" for k'
    proof (cases "k' \<in> set ?ks")
      case False
      then show ?thesis by (rule out)
    next
      case True
      with ks have "k' \<in> set ks1 \<or> k' = k \<or> k' \<in> set ks2" by auto
      moreover from srt have "\<forall>y \<in> set ks2. k \<le> y" by (simp add: sorted_append)
      ultimately have "k' \<in> set ks1" using lt by auto
      with b show ?thesis by blast
    qed
    with m r show ?thesis by (auto simp: c)
  qed
qed

theorem snapshot_check_precedence_witness:
  "compare_snapshot snapshot_a_touched (SInline snapshot_a)
     = (False, ''WI-1::out/a.md mtime changed'')
   \<and> compare_snapshot snapshot_a (SInline snapshot_a) = (True, [])
   \<and> compare_snapshot [] SMissing = (True, [])
   \<and> compare_snapshot snapshot_a (SInline (tl snapshot_a))
     = (False, ''new inputs: WI-1::out/a.md'')"
proof -
  have a: "compare_snapshot snapshot_a_touched (SInline snapshot_a)
     = (False, ''WI-1::out/a.md mtime changed'')" by code_simp
  have b: "compare_snapshot snapshot_a (SInline snapshot_a) = (True, [])" by code_simp
  have k: "key_set (canonicalize snapshot_a)
      \<noteq> key_set (canonicalize (normalize_snapshot_entries (SInline (tl snapshot_a))))"
    by code_simp
  have n: "normalize_snapshot_entries (SInline (tl snapshot_a)) \<noteq> []" by code_simp
  have r: "key_set_reason (sort (map fst (canonicalize snapshot_a)))
              (sort (map fst (canonicalize (normalize_snapshot_entries (SInline (tl snapshot_a))))))
           = ''new inputs: WI-1::out/a.md''" by code_simp
  have e: "normalize_snapshot_entries SMissing = [] \<and> ([] :: snap_entry list) = []" by simp
  from snapshot_check_precedence [of "SInline (tl snapshot_a)" snapshot_a] k n r
  have c: "compare_snapshot snapshot_a (SInline (tl snapshot_a)) = (False, ''new inputs: WI-1::out/a.md'')"
    by simp
  from snapshot_check_precedence [of SMissing "[]"] e
  have d: "compare_snapshot [] SMissing = (True, [])" by blast
  from a b c d show ?thesis by simp
qed

subsection \<open>The invalidation run\<close>

text \<open>
  The fields of a plan document that the invalidation run reads or writes. The project
  is the list of job directories in directory order and the plan stored in each of
  them; a plan is addressed by its job directory.
\<close>

record plan_doc =
  p_work_item_id :: string
  p_status :: string
  p_depends_on :: str_list_value
  p_outputs :: str_list_value
  p_truth_input_snapshot :: snapshot_value
  p_completed_at :: string
  p_updated_at :: string
  p_truth_last_status :: string
  p_truth_last_checked_at :: string
  p_truth_last_failures :: "string list"
  p_body :: string

type_synonym plan_store = "string \<Rightarrow> plan_doc"

record JobRecord =
  r_work_item_id :: string
  r_status :: string
  r_depends_on :: "string list"
  r_job_dir :: string

type_synonym job_records = "(string \<times> JobRecord) list"

definition inv_scan_step :: "plan_store \<Rightarrow> string \<Rightarrow> job_records \<Rightarrow> job_records" where
  "inv_scan_step plans job_dir out =
     (let fm = plans job_dir; wi = strip (p_work_item_id fm) in
      if wi = [] then out
      else if map_of out wi \<noteq> None then out
      else AList.update wi
             \<lparr> r_work_item_id = wi, r_status = status_or_planned (p_status fm),
               r_depends_on = normalize_str_list (p_depends_on fm), r_job_dir = job_dir \<rparr> out)"

definition inv_scan_jobs :: "string list \<Rightarrow> plan_store \<Rightarrow> job_records" where
  "inv_scan_jobs dirs plans = fold (inv_scan_step plans) dirs []"

text \<open>
  \<^verbatim>\<open>build_reverse_deps\<close>: a \<^verbatim>\<open>defaultdict(list)\<close> from a dependency to the jobs that name
  it, each list sorted and without duplicates at the end.
\<close>

type_synonym reverse_deps = "(string \<times> string list) list"

definition rev_get :: "reverse_deps \<Rightarrow> string \<Rightarrow> string list" where
  "rev_get rdeps k = (case map_of rdeps k of Some ws \<Rightarrow> ws | None \<Rightarrow> [])"

definition rev_step :: "string \<Rightarrow> string \<Rightarrow> reverse_deps \<Rightarrow> reverse_deps" where
  "rev_step wi dep rdeps =
     (let dep_id = strip dep in
      if dep_id = [] then rdeps else AList.update dep_id (rev_get rdeps dep_id @ [wi]) rdeps)"

definition build_reverse_deps :: "job_records \<Rightarrow> reverse_deps" where
  "build_reverse_deps jobs =
     map (\<lambda>kv. (fst kv, sorted_set (snd kv)))
       (fold (\<lambda>wi rdeps. fold (rev_step wi) (r_depends_on (the (map_of jobs wi))) rdeps)
          (sort (map fst jobs)) [])"

text \<open>
  \<^verbatim>\<open>downstream_closure\<close>: breadth-first over the reverse edges. \<open>seen\<close> and \<open>out\<close> are
  Python sets, kept here as lists without duplicates; the queue is popped at the left.
\<close>

record bfs_state =
  b_seen :: "string list"
  b_out :: "string list"
  b_queue :: "string list"

definition bfs_visit :: "string \<Rightarrow> bfs_state \<Rightarrow> bfs_state" where
  "bfs_visit nxt s =
     (if nxt \<in> set (b_seen s) then s
      else \<lparr>b_seen = nxt # b_seen s, b_out = nxt # b_out s, b_queue = b_queue s @ [nxt]\<rparr>)"

definition rev_nodes :: "reverse_deps \<Rightarrow> string set" where
  "rev_nodes rdeps = \<Union> (set ` snd ` set rdeps)"

lemma rev_get_nodes: "set (rev_get rdeps k) \<subseteq> rev_nodes rdeps"
proof (cases "map_of rdeps k")
  case None
  then show ?thesis by (simp add: rev_get_def)
next
  case (Some ws)
  then have "(k, ws) \<in> set rdeps" by (rule map_of_SomeD)
  then have "set ws \<subseteq> rev_nodes rdeps" unfolding rev_nodes_def by force
  with Some show ?thesis by (simp add: rev_get_def)
qed

lemma bfs_visit_measure:
  assumes "nxt \<in> rev_nodes rdeps"
  shows "2 * card (rev_nodes rdeps - set (b_seen (bfs_visit nxt s))) + length (b_queue (bfs_visit nxt s))
         \<le> 2 * card (rev_nodes rdeps - set (b_seen s)) + length (b_queue s)"
proof (cases "nxt \<in> set (b_seen s)")
  case True
  then show ?thesis by (simp add: bfs_visit_def)
next
  case False
  have f: "finite (rev_nodes rdeps - set (b_seen s))" by (simp add: rev_nodes_def)
  from False assms have m: "nxt \<in> rev_nodes rdeps - set (b_seen s)" by simp
  have "rev_nodes rdeps - set (nxt # b_seen s) = (rev_nodes rdeps - set (b_seen s)) - {nxt}" by auto
  with f m have "card (rev_nodes rdeps - set (nxt # b_seen s)) < card (rev_nodes rdeps - set (b_seen s))"
    by (metis card_Diff1_less)
  with False show ?thesis by (simp add: bfs_visit_def)
qed

lemma bfs_fold_measure:
  "set ns \<subseteq> rev_nodes rdeps \<Longrightarrow>
   2 * card (rev_nodes rdeps - set (b_seen (fold bfs_visit ns s))) + length (b_queue (fold bfs_visit ns s))
   \<le> 2 * card (rev_nodes rdeps - set (b_seen s)) + length (b_queue s)"
proof (induction ns arbitrary: s)
  case Nil
  show ?case by simp
next
  case (Cons n ns)
  from Cons.prems have "n \<in> rev_nodes rdeps" "set ns \<subseteq> rev_nodes rdeps" by simp_all
  from Cons.IH [OF this(2), of "bfs_visit n s"] bfs_visit_measure [OF this(1), of s]
  show ?case by simp
qed

function bfs_loop :: "reverse_deps \<Rightarrow> bfs_state \<Rightarrow> bfs_state" where
  "bfs_loop rdeps s =
     (case b_queue s of
        [] \<Rightarrow> s
      | cur # rest \<Rightarrow> bfs_loop rdeps (fold bfs_visit (rev_get rdeps cur) (s\<lparr>b_queue := rest\<rparr>)))"
  by pat_completeness auto
termination
proof (relation "measure (\<lambda>(rdeps, s). 2 * card (rev_nodes rdeps - set (b_seen s)) + length (b_queue s))",
    goal_cases)
  case 1
  show ?case by simp
next
  case (2 rdeps s cur rest)
  from bfs_fold_measure [OF rev_get_nodes, of rdeps cur "s\<lparr>b_queue := rest\<rparr>"] 2
  show ?case by simp
qed

declare bfs_loop.simps [simp del]

definition downstream_closure :: "string \<Rightarrow> reverse_deps \<Rightarrow> string list" where
  "downstream_closure start_wi rdeps =
     sort (b_out (bfs_loop rdeps \<lparr>b_seen = [start_wi], b_out = [], b_queue = [start_wi]\<rparr>))"

text \<open>
  The files of the job directories: what \<^verbatim>\<open>stat\<close> and the hash of the regular file at a
  relative path below a job directory give, if there is such a file.
\<close>

record file_stat =
  f_sha256 :: string
  f_mtime :: real
  f_size :: int

type_synonym out_files = "string \<Rightarrow> string \<Rightarrow> file_stat option"

definition fingerprint :: "out_files \<Rightarrow> string \<Rightarrow> string \<Rightarrow> string \<Rightarrow> snap_entry" where
  "fingerprint fs dep_id dep_job_dir output_rel =
     (case fs dep_job_dir output_rel of
        None \<Rightarrow>
          \<lparr> dependency_work_item_id = dep_id, declared_output = output_rel, exists_flag = False,
            sha256 = [], mtime = None, size_bytes = None \<rparr>
      | Some st \<Rightarrow>
          \<lparr> dependency_work_item_id = dep_id, declared_output = output_rel, exists_flag = True,
            sha256 = f_sha256 st, mtime = Some (f_mtime st), size_bytes = Some (f_size st) \<rparr>)"

definition make_current_input_entries ::
  "out_files \<Rightarrow> plan_store \<Rightarrow> job_records \<Rightarrow> string \<Rightarrow> snap_entry list" where
  "make_current_input_entries fs plans jobs wi =
     sort_key entry_sort_key
       (concat (map (\<lambda>dep_id.
          case map_of jobs dep_id of
            None \<Rightarrow> []
          | Some dep \<Rightarrow>
              map (fingerprint fs dep_id (r_job_dir dep))
                (normalize_str_list (p_outputs (plans (r_job_dir dep)))))
        (sorted_set (r_depends_on (the (map_of jobs wi))))))"

text \<open>
  The test \<^verbatim>\<open>truth_snapshot in (None, "", [], {})\<close> of the loop: a missing value or an
  empty path.
\<close>

definition snapshot_missing :: "snapshot_value \<Rightarrow> bool" where
  "snapshot_missing v =
     (case v of SMissing \<Rightarrow> True | SPath path_text content \<Rightarrow> path_text = [] | SInline es \<Rightarrow> False)"

record inv_state =
  i_plans :: plan_store
  i_scanned_done :: "string list"
  i_stale_jobs :: "(string \<times> string) list"
  i_skipped :: "(string \<times> string) list"

definition mark_stale :: "string \<Rightarrow> string \<Rightarrow> plan_doc \<Rightarrow> plan_doc" where
  "mark_stale ts reason doc =
     doc\<lparr> p_status := ''blocked'', p_completed_at := [], p_updated_at := ts,
          p_truth_last_status := ''fail'', p_truth_last_checked_at := ts,
          p_truth_last_failures := [''freshness_inputs: '' @ reason],
          p_body := append_progress_log (p_body doc)
            (ts @ '' invalidate_downstream: done -> blocked (stale truth_input_snapshot: ''
               @ reason @ '')'') \<rparr>"

text \<open>
  The body of the loop over the scoped jobs. \<open>clock wi\<close> is the time stamp taken when
  job \<open>wi\<close> is written.
\<close>

definition process_job :: "out_files \<Rightarrow> job_records \<Rightarrow> (string \<Rightarrow> string) \<Rightarrow> string \<Rightarrow> inv_state \<Rightarrow> inv_state" where
  "process_job fs jobs clock wi st =
     (case map_of jobs wi of
        None \<Rightarrow> st
      | Some rec \<Rightarrow>
          let doc = i_plans st (r_job_dir rec);
              status = status_or_planned (p_status doc)
          in if status \<noteq> ''done''
             then st\<lparr>i_skipped := i_skipped st @ [(wi, ''status='' @ status)]\<rparr>
             else
               let st = st\<lparr>i_scanned_done := i_scanned_done st @ [wi]\<rparr>;
                   current_entries = make_current_input_entries fs (i_plans st) jobs wi;
                   truth_snapshot = p_truth_input_snapshot doc
               in if snapshot_missing truth_snapshot
                  then st\<lparr>i_skipped := i_skipped st @ [(wi, ''missing truth_input_snapshot'')]\<rparr>
                  else
                    let verdict = compare_snapshot current_entries truth_snapshot in
                    if fst verdict then st
                    else st\<lparr>i_plans := (i_plans st)(r_job_dir rec := mark_stale (clock wi) (snd verdict) doc),
                            i_stale_jobs := i_stale_jobs st @ [(wi, snd verdict)]\<rparr>)"

text \<open>
  The run: scoped to the downstream closure of a trigger job, or over all jobs
  (\<^verbatim>\<open>--all-scan\<close>, scope \<open>None\<close>). An unknown trigger ends the run with an error.
\<close>

definition scoped_work_items :: "job_records \<Rightarrow> string option \<Rightarrow> string + string list" where
  "scoped_work_items jobs scope =
     (case scope of
        None \<Rightarrow> Inr (sort (map fst jobs))
      | Some trigger_wi \<Rightarrow>
          if map_of jobs (strip trigger_wi) = None then Inl (''Work item not found: '' @ strip trigger_wi)
          else Inr (downstream_closure (strip trigger_wi) (build_reverse_deps jobs)))"

definition invalidate ::
  "out_files \<Rightarrow> (string \<Rightarrow> string) \<Rightarrow> string list \<Rightarrow> plan_store \<Rightarrow> string option \<Rightarrow> string + inv_state" where
  "invalidate fs clock dirs plans scope =
     (let jobs = inv_scan_jobs dirs plans in
      case scoped_work_items jobs scope of
        Inl err \<Rightarrow> Inl err
      | Inr scoped_wis \<Rightarrow>
          Inr (fold (process_job fs jobs clock) scoped_wis
                 \<lparr>i_plans = plans, i_scanned_done = [], i_stale_jobs = [], i_skipped = []\<rparr>))"



subsection \<open>The downstream closure\<close>

text \<open>
  The reverse edges, from a dependency to a job that names it, and the result of the
  breadth-first walk: every job reached from the start by at least one reverse edge,
  the start itself excluded.
\<close>

definition rev_edges :: "reverse_deps \<Rightarrow> (string \<times> string) set" where
  "rev_edges rdeps = {(d, w). w \<in> set (rev_get rdeps d)}"

lemma fold_bfs_visit_seen:
  "set (b_seen (fold bfs_visit ns s)) = set (b_seen s) \<union> set ns"
  by (induction ns arbitrary: s) (auto simp: bfs_visit_def)

lemma fold_bfs_visit_out:
  "set (b_out (fold bfs_visit ns s)) = set (b_out s) \<union> (set ns - set (b_seen s))"
  by (induction ns arbitrary: s) (auto simp: bfs_visit_def)

lemma fold_bfs_visit_queue:
  "set (b_queue (fold bfs_visit ns s)) = set (b_queue s) \<union> (set ns - set (b_seen s))"
  by (induction ns arbitrary: s) (auto simp: bfs_visit_def)

definition bfs_inv :: "string \<Rightarrow> reverse_deps \<Rightarrow> bfs_state \<Rightarrow> bool" where
  "bfs_inv start rdeps s =
     (start \<in> set (b_seen s)
      \<and> set (b_out s) = set (b_seen s) - {start}
      \<and> set (b_queue s) \<subseteq> set (b_seen s)
      \<and> (\<forall>x \<in> set (b_seen s) - set (b_queue s). \<forall>y. (x, y) \<in> rev_edges rdeps \<longrightarrow> y \<in> set (b_seen s))
      \<and> (\<forall>x \<in> set (b_seen s). (start, x) \<in> (rev_edges rdeps)\<^sup>*))"

lemma bfs_inv_step:
  assumes inv: "bfs_inv start rdeps s" and q: "b_queue s = cur # rest"
  shows "bfs_inv start rdeps (fold bfs_visit (rev_get rdeps cur) (s\<lparr>b_queue := rest\<rparr>))"
proof -
  let ?s' = "fold bfs_visit (rev_get rdeps cur) (s\<lparr>b_queue := rest\<rparr>)"
  let ?ns = "set (rev_get rdeps cur)"
  have seen: "set (b_seen ?s') = set (b_seen s) \<union> ?ns" by (simp add: fold_bfs_visit_seen)
  have out: "set (b_out ?s') = set (b_out s) \<union> (?ns - set (b_seen s))"
    by (simp add: fold_bfs_visit_out)
  have que: "set (b_queue ?s') = set rest \<union> (?ns - set (b_seen s))"
    by (simp add: fold_bfs_visit_queue)
  from inv have i1: "start \<in> set (b_seen s)" and i2: "set (b_out s) = set (b_seen s) - {start}"
    and i3: "set (b_queue s) \<subseteq> set (b_seen s)"
    and i4: "\<And>x y. x \<in> set (b_seen s) \<Longrightarrow> x \<notin> set (b_queue s) \<Longrightarrow> (x, y) \<in> rev_edges rdeps
               \<Longrightarrow> y \<in> set (b_seen s)"
    and i5: "\<And>x. x \<in> set (b_seen s) \<Longrightarrow> (start, x) \<in> (rev_edges rdeps)\<^sup>*"
    by (auto simp: bfs_inv_def)
  from q i3 have cs: "cur \<in> set (b_seen s)" by auto
  have a: "start \<in> set (b_seen ?s')" using i1 seen by simp
  have b: "set (b_out ?s') = set (b_seen ?s') - {start}" using i1 i2 seen out by auto
  have c: "set (b_queue ?s') \<subseteq> set (b_seen ?s')" using q i3 seen que by auto
  have d: "y \<in> set (b_seen ?s')"
    if "x \<in> set (b_seen ?s')" "x \<notin> set (b_queue ?s')" "(x, y) \<in> rev_edges rdeps" for x y
  proof (cases "x = cur")
    case True
    with that(3) have "y \<in> ?ns" by (simp add: rev_edges_def)
    then show ?thesis using seen by simp
  next
    case False
    from that(1,2) seen que have xs: "x \<in> set (b_seen s)" by auto
    from that(2) que q False have "x \<notin> set (b_queue s)" by auto
    from i4 [OF xs this that(3)] show ?thesis using seen by simp
  qed
  have e: "(start, x) \<in> (rev_edges rdeps)\<^sup>*" if "x \<in> set (b_seen ?s')" for x
  proof (cases "x \<in> set (b_seen s)")
    case True
    then show ?thesis by (rule i5)
  next
    case False
    with that seen have "x \<in> ?ns" by auto
    then have "(cur, x) \<in> rev_edges rdeps" by (simp add: rev_edges_def)
    with i5 [OF cs] show ?thesis by (rule rtrancl_into_rtrancl)
  qed
  from a b c d e show ?thesis unfolding bfs_inv_def by blast
qed

lemma bfs_loop_inv:
  "bfs_inv start rdeps s \<Longrightarrow>
   bfs_inv start rdeps (bfs_loop rdeps s) \<and> b_queue (bfs_loop rdeps s) = []"
proof (induction rdeps s rule: bfs_loop.induct)
  case (1 rdeps s)
  show ?case
  proof (cases "b_queue s")
    case Nil
    with "1.prems" show ?thesis by (simp add: bfs_loop.simps [of rdeps s])
  next
    case (Cons cur rest)
    from bfs_inv_step [OF "1.prems" Cons]
    have "bfs_inv start rdeps (fold bfs_visit (rev_get rdeps cur) (s\<lparr>b_queue := rest\<rparr>))" .
    from "1.IH" [OF Cons this] Cons show ?thesis
      by (simp add: bfs_loop.simps [of rdeps s])
  qed
qed

lemma downstream_closure_set:
  "set (downstream_closure start rdeps) = {w. (start, w) \<in> (rev_edges rdeps)\<^sup>+ \<and> w \<noteq> start}"
proof -
  let ?init = "\<lparr>b_seen = [start], b_out = [], b_queue = [start]\<rparr>"
  let ?s = "bfs_loop rdeps ?init"
  have "bfs_inv start rdeps ?init" by (simp add: bfs_inv_def)
  note r = bfs_loop_inv [OF this]
  from r have inv: "bfs_inv start rdeps ?s" by (rule conjunct1)
  from r have q: "b_queue ?s = []" by (rule conjunct2)
  from inv q have closed: "\<And>x y. x \<in> set (b_seen ?s) \<Longrightarrow> (x, y) \<in> rev_edges rdeps \<Longrightarrow> y \<in> set (b_seen ?s)"
    unfolding bfs_inv_def by simp
  from inv have st: "start \<in> set (b_seen ?s)" by (simp add: bfs_inv_def)
  have "y \<in> set (b_seen ?s)" if "(start, y) \<in> (rev_edges rdeps)\<^sup>*" for y
    using that by (induction rule: rtrancl_induct) (auto intro: st closed)
  moreover from inv have "\<And>x. x \<in> set (b_seen ?s) \<Longrightarrow> (start, x) \<in> (rev_edges rdeps)\<^sup>*"
    by (simp add: bfs_inv_def)
  ultimately have seen: "set (b_seen ?s) = {y. (start, y) \<in> (rev_edges rdeps)\<^sup>*}" by blast
  from inv have "set (b_out ?s) = set (b_seen ?s) - {start}" by (simp add: bfs_inv_def)
  with seen have "set (b_out ?s) = {y. (start, y) \<in> (rev_edges rdeps)\<^sup>* \<and> y \<noteq> start}" by auto
  also have "\<dots> = {w. (start, w) \<in> (rev_edges rdeps)\<^sup>+ \<and> w \<noteq> start}"
    by (auto simp: rtrancl_eq_or_trancl)
  finally show ?thesis by (simp add: downstream_closure_def)
qed

lemma bfs_visit_distinct_out:
  "distinct (b_out s) \<Longrightarrow> set (b_out s) \<subseteq> set (b_seen s) \<Longrightarrow>
   distinct (b_out (bfs_visit n s)) \<and> set (b_out (bfs_visit n s)) \<subseteq> set (b_seen (bfs_visit n s))"
  by (auto simp: bfs_visit_def)

lemma fold_bfs_visit_distinct_out:
  "distinct (b_out s) \<Longrightarrow> set (b_out s) \<subseteq> set (b_seen s) \<Longrightarrow>
   distinct (b_out (fold bfs_visit ns s)) \<and> set (b_out (fold bfs_visit ns s)) \<subseteq> set (b_seen (fold bfs_visit ns s))"
proof (induction ns arbitrary: s)
  case Nil
  then show ?case by simp
next
  case (Cons n ns)
  from bfs_visit_distinct_out [OF Cons.prems, of n] Cons.IH [of "bfs_visit n s"]
  show ?case by simp
qed

lemma bfs_loop_distinct_out:
  "distinct (b_out s) \<Longrightarrow> set (b_out s) \<subseteq> set (b_seen s) \<Longrightarrow> distinct (b_out (bfs_loop rdeps s))"
proof (induction rdeps s rule: bfs_loop.induct)
  case (1 rdeps s)
  show ?case
  proof (cases "b_queue s")
    case Nil
    with "1.prems" show ?thesis by (simp add: bfs_loop.simps [of rdeps s])
  next
    case (Cons cur rest)
    from fold_bfs_visit_distinct_out [of "s\<lparr>b_queue := rest\<rparr>" "rev_get rdeps cur"] "1.prems"
    have "distinct (b_out (fold bfs_visit (rev_get rdeps cur) (s\<lparr>b_queue := rest\<rparr>)))
          \<and> set (b_out (fold bfs_visit (rev_get rdeps cur) (s\<lparr>b_queue := rest\<rparr>)))
              \<subseteq> set (b_seen (fold bfs_visit (rev_get rdeps cur) (s\<lparr>b_queue := rest\<rparr>)))"
      by simp
    with "1.IH" [OF Cons] Cons show ?thesis
      by (simp add: bfs_loop.simps [of rdeps s])
  qed
qed

lemma distinct_downstream_closure: "distinct (downstream_closure start rdeps)"
  unfolding downstream_closure_def
  by (simp add: bfs_loop_distinct_out)


subsection \<open>Reverse dependencies and the scan\<close>

text \<open>
  The edge relation of the job records: \<open>(d, w)\<close> when job \<open>w\<close> names \<open>d\<close> among its
  dependencies. \<^verbatim>\<open>build_reverse_deps\<close> tabulates it.
\<close>

definition dependents :: "job_records \<Rightarrow> (string \<times> string) set" where
  "dependents jobs =
     {(d, w). \<exists>rec. map_of jobs w = Some rec \<and> d \<noteq> [] \<and> d \<in> strip ` set (r_depends_on rec)}"

lemma rev_get_update:
  "rev_get (AList.update k v rdeps) d = (if d = k then v else rev_get rdeps d)"
  by (simp add: rev_get_def update_conv')

lemma rev_step_get:
  "set (rev_get (rev_step wi dep rdeps) d)
     = set (rev_get rdeps d) \<union> (if d \<noteq> [] \<and> d = strip dep then {wi} else {})"
  by (auto simp: rev_step_def Let_def rev_get_update)

lemma fold_rev_step_get:
  "set (rev_get (fold (rev_step wi) deps rdeps) d)
     = set (rev_get rdeps d) \<union> (if d \<noteq> [] \<and> d \<in> strip ` set deps then {wi} else {})"
proof (induction deps arbitrary: rdeps)
  case Nil
  then show ?case by simp
next
  case (Cons dep deps)
  show ?case by (auto simp: Cons.IH rev_step_get)
qed

lemma fold_jobs_rev_get:
  "set (rev_get (fold (\<lambda>wi rdeps. fold (rev_step wi) (deps wi) rdeps) ws rdeps) d)
     = set (rev_get rdeps d) \<union> {wi \<in> set ws. d \<noteq> [] \<and> d \<in> strip ` set (deps wi)}"
proof (induction ws arbitrary: rdeps)
  case Nil
  then show ?case by simp
next
  case (Cons w ws)
  show ?case by (auto simp: Cons.IH fold_rev_step_get)
qed

lemma rev_get_map_sorted_set:
  "rev_get (map (\<lambda>kv. (fst kv, sorted_set (snd kv))) rdeps) d = sorted_set (rev_get rdeps d)"
  by (induction rdeps) (auto simp: rev_get_def sorted_set_def)

lemma rev_get_build_reverse_deps:
  "set (rev_get (build_reverse_deps jobs) d)
     = {wi \<in> fst ` set jobs. d \<noteq> [] \<and> d \<in> strip ` set (r_depends_on (the (map_of jobs wi)))}"
proof -
  have "rev_get [] d = []" by (simp add: rev_get_def)
  then show ?thesis
    unfolding build_reverse_deps_def
    by (simp add: rev_get_map_sorted_set set_sorted_set fold_jobs_rev_get)
qed

lemma rev_edges_build_reverse_deps: "rev_edges (build_reverse_deps jobs) = dependents jobs"
proof -
  have "w \<in> fst ` set jobs \<longleftrightarrow> (\<exists>rec. map_of jobs w = Some rec)" for w
    by (metis map_of_eq_None_iff not_Some_eq)
  then show ?thesis
    unfolding rev_edges_def dependents_def rev_get_build_reverse_deps by auto
qed

text \<open>What the scan records.\<close>

definition scanned :: "plan_store \<Rightarrow> job_records \<Rightarrow> bool" where
  "scanned plans jobs =
     (\<forall>w rec. map_of jobs w = Some rec \<longrightarrow>
        w \<noteq> [] \<and> w = strip (p_work_item_id (plans (r_job_dir rec)))
        \<and> r_work_item_id rec = w
        \<and> r_status rec = status_or_planned (p_status (plans (r_job_dir rec)))
        \<and> r_depends_on rec = normalize_str_list (p_depends_on (plans (r_job_dir rec))))"

lemma scanned_step: "scanned plans out \<Longrightarrow> scanned plans (inv_scan_step plans job_dir out)"
  unfolding scanned_def inv_scan_step_def Let_def
  by (auto simp: update_conv' split: if_splits)

lemma scanned_fold: "scanned plans out \<Longrightarrow> scanned plans (fold (inv_scan_step plans) dirs out)"
  by (induction dirs arbitrary: out) (simp_all add: scanned_step)

lemma scanned_scan_jobs: "scanned plans (inv_scan_jobs dirs plans)"
  unfolding inv_scan_jobs_def by (rule scanned_fold) (simp add: scanned_def)

lemma distinct_inv_scan_step:
  "distinct (map fst out) \<Longrightarrow> distinct (map fst (inv_scan_step plans job_dir out))"
  by (simp add: inv_scan_step_def Let_def distinct_update)

lemma distinct_inv_scan_fold:
  "distinct (map fst out) \<Longrightarrow> distinct (map fst (fold (inv_scan_step plans) dirs out))"
  by (induction dirs arbitrary: out) (simp_all add: distinct_inv_scan_step)

lemma distinct_inv_scan_jobs: "distinct (map fst (inv_scan_jobs dirs plans))"
  unfolding inv_scan_jobs_def by (rule distinct_inv_scan_fold) simp

definition dir_of :: "job_records \<Rightarrow> string \<Rightarrow> string" where
  "dir_of jobs wi = r_job_dir (the (map_of jobs wi))"

lemma scanned_dir_inj:
  assumes "scanned plans jobs" "map_of jobs w = Some rec" "map_of jobs w' = Some rec'"
    and "dir_of jobs w = dir_of jobs w'"
  shows "w = w'"
  using assms unfolding scanned_def dir_of_def by (metis option.sel)


subsection \<open>The loop over the scoped jobs\<close>

text \<open>The verdict of the loop body on one job, as a function of the plan store.\<close>

definition stale_reason :: "out_files \<Rightarrow> plan_store \<Rightarrow> job_records \<Rightarrow> string \<Rightarrow> string option" where
  "stale_reason fs plans jobs wi =
     (case map_of jobs wi of
        None \<Rightarrow> None
      | Some rec \<Rightarrow>
          let doc = plans (r_job_dir rec) in
          if status_or_planned (p_status doc) \<noteq> ''done'' then None
          else if snapshot_missing (p_truth_input_snapshot doc) then None
          else
            let verdict = compare_snapshot (make_current_input_entries fs plans jobs wi)
                            (p_truth_input_snapshot doc)
            in if fst verdict then None else Some (snd verdict))"

definition stale_plan :: "(string \<Rightarrow> string) \<Rightarrow> string \<Rightarrow> string option \<Rightarrow> plan_doc \<Rightarrow> plan_doc" where
  "stale_plan clock wi verdict doc =
     (case verdict of None \<Rightarrow> doc | Some reason \<Rightarrow> mark_stale (clock wi) reason doc)"

definition stale_row :: "string \<Rightarrow> string option \<Rightarrow> (string \<times> string) list" where
  "stale_row wi verdict = (case verdict of None \<Rightarrow> [] | Some reason \<Rightarrow> [(wi, reason)])"

lemma process_job_plans:
  "i_plans (process_job fs jobs clock wi st)
     = (i_plans st)(dir_of jobs wi :=
          stale_plan clock wi (stale_reason fs (i_plans st) jobs wi) (i_plans st (dir_of jobs wi)))"
  unfolding process_job_def stale_reason_def stale_plan_def dir_of_def Let_def
  by (auto split: option.splits)

lemma process_job_stale:
  "i_stale_jobs (process_job fs jobs clock wi st)
     = i_stale_jobs st @ stale_row wi (stale_reason fs (i_plans st) jobs wi)"
  unfolding process_job_def stale_reason_def stale_row_def Let_def
  by (auto split: option.splits)

definition visited :: "inv_state \<Rightarrow> string set" where
  "visited st = set (i_scanned_done st) \<union> fst ` set (i_skipped st)"

lemma process_job_visited:
  "visited (process_job fs jobs clock wi st)
     = visited st \<union> (if map_of jobs wi = None then {} else {wi})"
  unfolding process_job_def visited_def Let_def
  by (auto split: option.splits)

lemma fold_process_job_visited:
  "visited (fold (process_job fs jobs clock) ws st)
     = visited st \<union> {w \<in> set ws. map_of jobs w \<noteq> None}"
  by (induction ws arbitrary: st) (auto simp: process_job_visited)

definition same_inputs :: "plan_store \<Rightarrow> plan_store \<Rightarrow> bool" where
  "same_inputs p q =
     (\<forall>d. p_work_item_id (q d) = p_work_item_id (p d) \<and> p_depends_on (q d) = p_depends_on (p d)
          \<and> p_outputs (q d) = p_outputs (p d)
          \<and> p_truth_input_snapshot (q d) = p_truth_input_snapshot (p d))"

lemma same_inputs_refl: "same_inputs p p"
  by (simp add: same_inputs_def)

lemma make_current_input_entries_cong:
  "same_inputs p q \<Longrightarrow> make_current_input_entries fs q jobs wi = make_current_input_entries fs p jobs wi"
  by (simp add: make_current_input_entries_def same_inputs_def cong: option.case_cong)

lemma stale_reason_cong:
  assumes "same_inputs p q" and "p_status (q (dir_of jobs wi)) = p_status (p (dir_of jobs wi))"
  shows "stale_reason fs q jobs wi = stale_reason fs p jobs wi"
proof (cases "map_of jobs wi")
  case None
  then show ?thesis by (simp add: stale_reason_def)
next
  case (Some rec)
  from assms(1) have "p_truth_input_snapshot (q (r_job_dir rec)) = p_truth_input_snapshot (p (r_job_dir rec))"
    by (simp add: same_inputs_def)
  moreover from assms(2) Some have "p_status (q (r_job_dir rec)) = p_status (p (r_job_dir rec))"
    by (simp add: dir_of_def)
  ultimately show ?thesis
    using Some make_current_input_entries_cong [OF assms(1), of fs jobs wi]
    by (simp add: stale_reason_def Let_def)
qed

lemma stale_plan_inputs:
  "p_work_item_id (stale_plan clock wi v doc) = p_work_item_id doc"
  "p_depends_on (stale_plan clock wi v doc) = p_depends_on doc"
  "p_outputs (stale_plan clock wi v doc) = p_outputs doc"
  "p_truth_input_snapshot (stale_plan clock wi v doc) = p_truth_input_snapshot doc"
  by (simp_all add: stale_plan_def mark_stale_def split: option.splits)

lemma same_inputs_process_job:
  "same_inputs p (i_plans st) \<Longrightarrow> same_inputs p (i_plans (process_job fs jobs clock wi st))"
  by (simp add: same_inputs_def process_job_plans stale_plan_inputs)



text \<open>The loop over distinct jobs whose plans lie in different directories.\<close>

lemma fold_process_job:
  assumes "distinct ws" and "inj_on (dir_of jobs) (set ws)"
    and "same_inputs p0 (i_plans st)"
    and "\<forall>w \<in> set ws. i_plans st (dir_of jobs w) = p0 (dir_of jobs w)"
  shows "(\<forall>w \<in> set ws. i_plans (fold (process_job fs jobs clock) ws st) (dir_of jobs w)
            = stale_plan clock w (stale_reason fs p0 jobs w) (p0 (dir_of jobs w)))
       \<and> (\<forall>d. d \<notin> dir_of jobs ` set ws \<longrightarrow> i_plans (fold (process_job fs jobs clock) ws st) d = i_plans st d)
       \<and> i_stale_jobs (fold (process_job fs jobs clock) ws st)
           = i_stale_jobs st @ concat (map (\<lambda>w. stale_row w (stale_reason fs p0 jobs w)) ws)
       \<and> same_inputs p0 (i_plans (fold (process_job fs jobs clock) ws st))"
  using assms
proof (induction ws arbitrary: st)
  case Nil
  then show ?case by simp
next
  case (Cons w ws)
  let ?st1 = "process_job fs jobs clock w st"
  let ?fin = "fold (process_job fs jobs clock) ws ?st1"
  from Cons.prems have d: "distinct ws" and wn: "w \<notin> set ws" by simp_all
  from Cons.prems have inj: "inj_on (dir_of jobs) (set ws)" by (simp add: inj_on_def)
  from Cons.prems(2) wn have dirw: "dir_of jobs w \<notin> dir_of jobs ` set ws"
    by (auto simp: inj_on_def)
  from Cons.prems(4) have pw: "i_plans st (dir_of jobs w) = p0 (dir_of jobs w)" by simp
  have sr: "stale_reason fs (i_plans st) jobs w = stale_reason fs p0 jobs w"
    by (rule stale_reason_cong [OF Cons.prems(3)]) (simp add: pw)
  have si: "same_inputs p0 (i_plans ?st1)"
    by (rule same_inputs_process_job [OF Cons.prems(3)])
  have p1w: "i_plans ?st1 (dir_of jobs w) = stale_plan clock w (stale_reason fs p0 jobs w) (p0 (dir_of jobs w))"
    by (simp add: process_job_plans sr pw)
  have p1o: "i_plans ?st1 d = i_plans st d" if "d \<noteq> dir_of jobs w" for d
    using that by (simp add: process_job_plans)
  have same: "\<forall>w' \<in> set ws. i_plans ?st1 (dir_of jobs w') = p0 (dir_of jobs w')"
  proof
    fix w' assume w': "w' \<in> set ws"
    with dirw have "dir_of jobs w' \<noteq> dir_of jobs w" by (metis imageI)
    from p1o [OF this] Cons.prems(4) w' show "i_plans ?st1 (dir_of jobs w') = p0 (dir_of jobs w')" by simp
  qed
  note IH = Cons.IH [OF d inj si same]
  from IH have a: "\<And>w'. w' \<in> set ws \<Longrightarrow> i_plans ?fin (dir_of jobs w')
            = stale_plan clock w' (stale_reason fs p0 jobs w') (p0 (dir_of jobs w'))"
    and b: "\<And>d. d \<notin> dir_of jobs ` set ws \<Longrightarrow> i_plans ?fin d = i_plans ?st1 d"
    and c: "i_stale_jobs ?fin = i_stale_jobs ?st1 @ concat (map (\<lambda>w. stale_row w (stale_reason fs p0 jobs w)) ws)"
    and e: "same_inputs p0 (i_plans ?fin)"
    by blast+
  have A: "\<forall>w' \<in> set (w # ws). i_plans ?fin (dir_of jobs w')
            = stale_plan clock w' (stale_reason fs p0 jobs w') (p0 (dir_of jobs w'))"
    using a b [OF dirw] p1w by auto
  have B: "\<forall>d. d \<notin> dir_of jobs ` set (w # ws) \<longrightarrow> i_plans ?fin d = i_plans st d"
    using b p1o by auto
  have C: "i_stale_jobs ?fin = i_stale_jobs st @ concat (map (\<lambda>w. stale_row w (stale_reason fs p0 jobs w)) (w # ws))"
    by (simp add: c process_job_stale sr)
  from A B C e show ?case by simp
qed

lemma stale_reason_Some_iff:
  "stale_reason fs plans jobs w = Some reason \<longleftrightarrow>
     (\<exists>rec. map_of jobs w = Some rec
        \<and> status_or_planned (p_status (plans (r_job_dir rec))) = ''done''
        \<and> \<not> snapshot_missing (p_truth_input_snapshot (plans (r_job_dir rec)))
        \<and> compare_snapshot (make_current_input_entries fs plans jobs w)
              (p_truth_input_snapshot (plans (r_job_dir rec))) = (False, reason))"
  unfolding stale_reason_def Let_def
  by (cases "map_of jobs w") (auto simp: prod_eq_iff)

lemma dependents_target: "(d, w) \<in> (dependents jobs)\<^sup>+ \<Longrightarrow> map_of jobs w \<noteq> None"
  by (induction rule: trancl_induct) (auto simp: dependents_def)

lemma scanned_inj_on:
  assumes "scanned plans jobs" and "\<forall>w \<in> S. map_of jobs w \<noteq> None"
  shows "inj_on (dir_of jobs) S"
proof (rule inj_onI)
  fix x y assume "x \<in> S" "y \<in> S" and e: "dir_of jobs x = dir_of jobs y"
  with assms(2) obtain rx ry where "map_of jobs x = Some rx" "map_of jobs y = Some ry" by blast
  from scanned_dir_inj [OF assms(1) this e] show "x = y" .
qed

lemma sort_keys_known: "w \<in> set (sort (map fst jobs)) \<Longrightarrow> map_of jobs w \<noteq> None"
  by (simp add: map_of_eq_None_iff)

text \<open>The jobs a run goes through: distinct, and all of them scanned.\<close>

lemma scoped_work_items_facts:
  assumes "scoped_work_items (inv_scan_jobs dirs plans) scope = Inr ws"
  shows "distinct ws \<and> (\<forall>w \<in> set ws. map_of (inv_scan_jobs dirs plans) w \<noteq> None)"
proof (cases scope)
  case None
  with assms have "ws = sort (map fst (inv_scan_jobs dirs plans))"
    by (simp add: scoped_work_items_def)
  then show ?thesis using distinct_inv_scan_jobs [of dirs plans] sort_keys_known by auto
next
  case (Some trigger)
  with assms have ws: "ws = downstream_closure (strip trigger) (build_reverse_deps (inv_scan_jobs dirs plans))"
    by (simp add: scoped_work_items_def split: if_splits)
  have "map_of (inv_scan_jobs dirs plans) w \<noteq> None" if "w \<in> set ws" for w
    using that unfolding ws downstream_closure_set rev_edges_build_reverse_deps
    by (auto dest: dependents_target)
  then show ?thesis by (simp add: ws distinct_downstream_closure)
qed

lemma invalidate_run:
  fixes fs :: out_files and clock :: "string \<Rightarrow> string"
  assumes "scoped_work_items (inv_scan_jobs dirs plans) scope = Inr ws"
  defines "jobs \<equiv> inv_scan_jobs dirs plans"
  defines "st \<equiv> fold (process_job fs jobs clock) ws
                   \<lparr>i_plans = plans, i_scanned_done = [], i_stale_jobs = [], i_skipped = []\<rparr>"
  shows "invalidate fs clock dirs plans scope = Inr st"
    and "\<And>w. w \<in> set ws \<Longrightarrow>
           i_plans st (dir_of jobs w) = stale_plan clock w (stale_reason fs plans jobs w) (plans (dir_of jobs w))"
    and "\<And>d. d \<notin> dir_of jobs ` set ws \<Longrightarrow> i_plans st d = plans d"
    and "i_stale_jobs st = concat (map (\<lambda>w. stale_row w (stale_reason fs plans jobs w)) ws)"
    and "same_inputs plans (i_plans st)"
    and "visited st = set ws"
proof -
  let ?init = "\<lparr>i_plans = plans, i_scanned_done = [], i_stale_jobs = [], i_skipped = []\<rparr>"
  from scoped_work_items_facts [OF assms(1)]
  have d: "distinct ws" and k: "\<forall>w \<in> set ws. map_of jobs w \<noteq> None" by (simp_all add: jobs_def)
  have sc: "scanned plans jobs" unfolding jobs_def by (rule scanned_scan_jobs)
  have inj: "inj_on (dir_of jobs) (set ws)" by (rule scanned_inj_on [OF sc k])
  have "same_inputs plans (i_plans ?init)" by (simp add: same_inputs_refl)
  moreover have "\<forall>w \<in> set ws. i_plans ?init (dir_of jobs w) = plans (dir_of jobs w)" by simp
  ultimately have f: "(\<forall>w \<in> set ws. i_plans st (dir_of jobs w)
            = stale_plan clock w (stale_reason fs plans jobs w) (plans (dir_of jobs w)))
       \<and> (\<forall>d. d \<notin> dir_of jobs ` set ws \<longrightarrow> i_plans st d = i_plans ?init d)
       \<and> i_stale_jobs st
           = i_stale_jobs ?init @ concat (map (\<lambda>w. stale_row w (stale_reason fs plans jobs w)) ws)
       \<and> same_inputs plans (i_plans st)"
    unfolding st_def by (rule fold_process_job [OF d inj])
  show "invalidate fs clock dirs plans scope = Inr st"
    using assms(1) by (simp add: invalidate_def st_def jobs_def)
  from f show "\<And>w. w \<in> set ws \<Longrightarrow>
           i_plans st (dir_of jobs w) = stale_plan clock w (stale_reason fs plans jobs w) (plans (dir_of jobs w))"
    by blast
  from f show "\<And>d. d \<notin> dir_of jobs ` set ws \<Longrightarrow> i_plans st d = plans d" by simp
  from f show "i_stale_jobs st = concat (map (\<lambda>w. stale_row w (stale_reason fs plans jobs w)) ws)"
    by simp
  from f show "same_inputs plans (i_plans st)" by blast
  have "visited st = visited ?init \<union> {w \<in> set ws. map_of jobs w \<noteq> None}"
    unfolding st_def by (rule fold_process_job_visited)
  with k show "visited st = set ws" by (auto simp: visited_def)
qed

lemma scoped_trigger:
  assumes "map_of jobs (strip trigger) \<noteq> None"
  shows "scoped_work_items jobs (Some trigger)
         = Inr (downstream_closure (strip trigger) (build_reverse_deps jobs))"
  using assms by (simp add: scoped_work_items_def)

lemma set_scoped_trigger:
  "set (downstream_closure t (build_reverse_deps jobs)) = {w. (t, w) \<in> (dependents jobs)\<^sup>+ \<and> w \<noteq> t}"
  by (simp add: downstream_closure_set rev_edges_build_reverse_deps)

lemma stale_rows_set:
  "set (concat (map (\<lambda>w. stale_row w (f w)) ws)) = {(w, reason). w \<in> set ws \<and> f w = Some reason}"
  by (auto simp: stale_row_def split: option.splits)

lemma mark_stale_fields:
  "p_status (mark_stale ts reason doc) = ''blocked''"
  "p_completed_at (mark_stale ts reason doc) = []"
  "p_truth_last_status (mark_stale ts reason doc) = ''fail''"
  "p_truth_last_failures (mark_stale ts reason doc) = [''freshness_inputs: '' @ reason]"
  "p_body (mark_stale ts reason doc)
     = append_progress_log (p_body doc)
         (ts @ '' invalidate_downstream: done -> blocked (stale truth_input_snapshot: '' @ reason @ '')'')"
  by (simp_all add: mark_stale_def)

lemma mark_stale_audit_line:
  "\<exists>before after. p_body (mark_stale ts reason doc)
     = before @ [CHR 0x0A] @ ''- ''
         @ (ts @ '' invalidate_downstream: done -> blocked (stale truth_input_snapshot: ''
              @ reason @ '')'')
         @ [CHR 0x0A] @ after"
proof -
  let ?line = "ts @ '' invalidate_downstream: done -> blocked (stale truth_input_snapshot: ''
              @ reason @ '')''"
  have "?line \<noteq> []" by simp
  moreover have "\<not> is_space (last ?line)" by (simp add: is_space_def)
  ultimately have "\<exists>before after. append_progress_log (p_body doc) ?line
           = before @ [CHR 0x0A] @ ''- '' @ ?line @ [CHR 0x0A] @ after"
    by (rule append_progress_log_line)
  then show ?thesis by (simp add: mark_stale_def)
qed

lemma invalidate_trigger:
  assumes "map_of (inv_scan_jobs dirs plans) (strip trigger) \<noteq> None"
  shows "\<exists>st. invalidate fs clock dirs plans (Some trigger) = Inr st
      \<and> visited st
          = {w. (strip trigger, w) \<in> (dependents (inv_scan_jobs dirs plans))\<^sup>+ \<and> w \<noteq> strip trigger}
      \<and> (\<forall>w reason. stale_reason fs plans (inv_scan_jobs dirs plans) w = Some reason
            \<and> (strip trigger, w) \<in> (dependents (inv_scan_jobs dirs plans))\<^sup>+ \<and> w \<noteq> strip trigger
            \<longrightarrow> i_plans st (dir_of (inv_scan_jobs dirs plans) w)
                  = mark_stale (clock w) reason (plans (dir_of (inv_scan_jobs dirs plans) w))
              \<and> (w, reason) \<in> set (i_stale_jobs st))"
proof -
  define jobs where "jobs = inv_scan_jobs dirs plans"
  define ws where "ws = downstream_closure (strip trigger) (build_reverse_deps jobs)"
  define st where "st = fold (process_job fs jobs clock) ws
                   \<lparr>i_plans = plans, i_scanned_done = [], i_stale_jobs = [], i_skipped = []\<rparr>"
  from assms have sw: "scoped_work_items (inv_scan_jobs dirs plans) (Some trigger) = Inr ws"
    unfolding ws_def jobs_def by (rule scoped_trigger)
  note run = invalidate_run [OF sw, where fs = fs and clock = clock, folded jobs_def, folded st_def]
  have ws: "set ws = {w. (strip trigger, w) \<in> (dependents jobs)\<^sup>+ \<and> w \<noteq> strip trigger}"
    unfolding ws_def by (rule set_scoped_trigger)
  have m: "i_plans st (dir_of jobs w) = mark_stale (clock w) reason (plans (dir_of jobs w))
           \<and> (w, reason) \<in> set (i_stale_jobs st)"
    if sr: "stale_reason fs plans jobs w = Some reason"
      and "(strip trigger, w) \<in> (dependents jobs)\<^sup>+" "w \<noteq> strip trigger"
    for w reason
  proof -
    from that(2,3) ws have in_ws: "w \<in> set ws" by simp
    from run(2) [OF in_ws] have "i_plans st (dir_of jobs w) = mark_stale (clock w) reason (plans (dir_of jobs w))"
      by (simp add: sr stale_plan_def)
    moreover from in_ws sr have "(w, reason) \<in> set (i_stale_jobs st)"
      unfolding run(4) stale_rows_set by simp
    ultimately show ?thesis ..
  qed
  from run(1) run(6) ws m show ?thesis unfolding jobs_def by blast
qed


subsection \<open>A changed output is detected\<close>

lemma lstrip_id: "s = [] \<or> \<not> is_space (hd s) \<Longrightarrow> lstrip s = s"
  by (auto simp: lstrip_def dropWhile_eq_self_iff)

lemma rstrip_id: "s = [] \<or> \<not> is_space (last s) \<Longrightarrow> rstrip s = s"
proof -
  assume "s = [] \<or> \<not> is_space (last s)"
  then have "dropWhile is_space (rev s) = rev s"
    by (auto simp: dropWhile_eq_self_iff hd_rev)
  then show ?thesis by (simp add: rstrip_def)
qed

lemma rstrip_last: "rstrip s = [] \<or> \<not> is_space (last (rstrip s))"
proof (cases "dropWhile is_space (rev s) = []")
  case True
  then show ?thesis by (simp add: rstrip_def)
next
  case False
  then have "\<not> is_space (hd (dropWhile is_space (rev s)))" by (rule hd_dropWhile)
  with False show ?thesis by (simp add: rstrip_def last_rev)
qed

lemma strip_ends: "strip s = [] \<or> (\<not> is_space (hd (strip s)) \<and> \<not> is_space (last (strip s)))"
proof (cases "strip s = []")
  case True
  then show ?thesis by simp
next
  case False
  let ?r = "rstrip s"
  from False have ne: "dropWhile is_space ?r \<noteq> []" by (simp add: strip_def lstrip_def)
  then have h: "\<not> is_space (hd (dropWhile is_space ?r))" by (rule hd_dropWhile)
  have "?r = takeWhile is_space ?r @ dropWhile is_space ?r" by simp
  then have "last ?r = last (dropWhile is_space ?r)" using ne by (metis last_appendR)
  moreover from ne have "?r \<noteq> []" by auto
  ultimately have "\<not> is_space (last (dropWhile is_space ?r))" using rstrip_last [of s] by auto
  with h show ?thesis by (simp add: strip_def lstrip_def)
qed

lemma strip_strip: "strip (strip s) = strip s"
proof -
  from strip_ends [of s] have "rstrip (strip s) = strip s" by (intro rstrip_id) auto
  moreover from strip_ends [of s] have "lstrip (strip s) = strip s" by (intro lstrip_id) auto
  ultimately show ?thesis by (simp add: strip_def [of "strip s"])
qed

lemma normalize_str_list_stripped: "x \<in> set (normalize_str_list v) \<Longrightarrow> strip x = x"
  by (cases v) (auto simp: strip_strip Let_def split: if_splits)


text \<open>
  A change of a file that the comparison can see: the file appears or disappears, or
  its hash or its rounded modification time differs. The size is not compared.
\<close>

definition file_changed :: "file_stat option \<Rightarrow> file_stat option \<Rightarrow> bool" where
  "file_changed old new =
     (case (old, new) of
        (None, None) \<Rightarrow> False
      | (Some a, Some b) \<Rightarrow> strip (f_sha256 a) \<noteq> strip (f_sha256 b) \<or> round6 (f_mtime a) \<noteq> round6 (f_mtime b)
      | _ \<Rightarrow> True)"

lemma file_changed_canon:
  assumes "file_changed (fs0 dir out) (fs1 dir out)"
  shows "c_exists (canon_of (fingerprint fs1 d dir out)) \<noteq> c_exists (canon_of (fingerprint fs0 d dir out))
       \<or> c_sha256 (canon_of (fingerprint fs1 d dir out)) \<noteq> c_sha256 (canon_of (fingerprint fs0 d dir out))
       \<or> c_mtime (canon_of (fingerprint fs1 d dir out)) \<noteq> c_mtime (canon_of (fingerprint fs0 d dir out))"
  using assms
  by (cases "fs0 dir out"; cases "fs1 dir out")
     (auto simp: file_changed_def fingerprint_def canon_of_def normalize_mtime_def)

lemma entry_key_fingerprint: "entry_key (fingerprint fs d dir out) = strip d @ ''::'' @ strip out"
  by (cases "fs dir out") (simp_all add: entry_key_def fingerprint_def)

lemma dependency_fingerprint: "dependency_work_item_id (fingerprint fs d dir out) = d"
  by (cases "fs dir out") (simp_all add: fingerprint_def)

lemma set_make_current_input_entries:
  "set (make_current_input_entries fs plans jobs c)
     = {fingerprint fs d (r_job_dir dep) out | d dep out.
          d \<in> set (r_depends_on (the (map_of jobs c))) \<and> map_of jobs d = Some dep
          \<and> out \<in> set (normalize_str_list (p_outputs (plans (r_job_dir dep))))}"
proof -
  have "e \<in> set (make_current_input_entries fs plans jobs c) \<longleftrightarrow>
        (\<exists>d dep out. e = fingerprint fs d (r_job_dir dep) out
           \<and> d \<in> set (r_depends_on (the (map_of jobs c))) \<and> map_of jobs d = Some dep
           \<and> out \<in> set (normalize_str_list (p_outputs (plans (r_job_dir dep)))))" for e
  proof -
    have "e \<in> set (make_current_input_entries fs plans jobs c) \<longleftrightarrow>
        (\<exists>d \<in> set (r_depends_on (the (map_of jobs c))).
           e \<in> set (case map_of jobs d of None \<Rightarrow> []
                     | Some dep \<Rightarrow> map (fingerprint fs d (r_job_dir dep))
                                   (normalize_str_list (p_outputs (plans (r_job_dir dep))))))"
      by (simp add: make_current_input_entries_def set_sorted_set)
    also have "\<dots> \<longleftrightarrow> (\<exists>d dep out. e = fingerprint fs d (r_job_dir dep) out
           \<and> d \<in> set (r_depends_on (the (map_of jobs c))) \<and> map_of jobs d = Some dep
           \<and> out \<in> set (normalize_str_list (p_outputs (plans (r_job_dir dep)))))"
    proof
      assume "\<exists>d \<in> set (r_depends_on (the (map_of jobs c))).
           e \<in> set (case map_of jobs d of None \<Rightarrow> []
                     | Some dep \<Rightarrow> map (fingerprint fs d (r_job_dir dep))
                                   (normalize_str_list (p_outputs (plans (r_job_dir dep)))))"
      then obtain d where d: "d \<in> set (r_depends_on (the (map_of jobs c)))"
        and e: "e \<in> set (case map_of jobs d of None \<Rightarrow> []
                     | Some dep \<Rightarrow> map (fingerprint fs d (r_job_dir dep))
                                   (normalize_str_list (p_outputs (plans (r_job_dir dep)))))"
        by blast
      from e obtain dep where dep: "map_of jobs d = Some dep" by (cases "map_of jobs d") auto
      with e obtain out where "out \<in> set (normalize_str_list (p_outputs (plans (r_job_dir dep))))"
        "e = fingerprint fs d (r_job_dir dep) out" by auto
      with d dep show "\<exists>d dep out. e = fingerprint fs d (r_job_dir dep) out
           \<and> d \<in> set (r_depends_on (the (map_of jobs c))) \<and> map_of jobs d = Some dep
           \<and> out \<in> set (normalize_str_list (p_outputs (plans (r_job_dir dep))))" by blast
    next
      assume "\<exists>d dep out. e = fingerprint fs d (r_job_dir dep) out
           \<and> d \<in> set (r_depends_on (the (map_of jobs c))) \<and> map_of jobs d = Some dep
           \<and> out \<in> set (normalize_str_list (p_outputs (plans (r_job_dir dep))))"
      then obtain d dep out where e: "e = fingerprint fs d (r_job_dir dep) out"
        and d: "d \<in> set (r_depends_on (the (map_of jobs c)))" and dep: "map_of jobs d = Some dep"
        and out: "out \<in> set (normalize_str_list (p_outputs (plans (r_job_dir dep))))" by blast
      from e dep out have "e \<in> set (case map_of jobs d of None \<Rightarrow> []
                     | Some dep \<Rightarrow> map (fingerprint fs d (r_job_dir dep))
                                   (normalize_str_list (p_outputs (plans (r_job_dir dep)))))"
        by simp
      with d show "\<exists>d \<in> set (r_depends_on (the (map_of jobs c))).
           e \<in> set (case map_of jobs d of None \<Rightarrow> []
                     | Some dep \<Rightarrow> map (fingerprint fs d (r_job_dir dep))
                                   (normalize_str_list (p_outputs (plans (r_job_dir dep)))))" by blast
    qed
    finally show ?thesis .
  qed
  then show ?thesis by blast
qed

lemma key_split:
  assumes "CHR '':'' \<notin> set a" and "CHR '':'' \<notin> set a'" and "a @ ''::'' @ b = a' @ ''::'' @ b'"
  shows "a = a' \<and> b = b'"
proof -
  have t: "takeWhile (\<lambda>c. c \<noteq> CHR '':'') (x @ ''::'' @ y) = x" if "CHR '':'' \<notin> set x" for x y
    using that by (subst takeWhile_append2) auto
  from t [OF assms(1), of b] t [OF assms(2), of b'] assms(3) have "a = a'" by simp
  with assms(3) show ?thesis by simp
qed

lemma map_of_fold_update:
  assumes "\<forall>e \<in> set es. kf e = k \<longrightarrow> vf e = v"
  shows "map_of (fold (\<lambda>item out. AList.update (kf item) (vf item) out) es acc) k
         = (if \<exists>e \<in> set es. kf e = k then Some v else map_of acc k)"
  using assms
proof (induction es arbitrary: acc)
  case Nil
  then show ?case by simp
next
  case (Cons e es)
  from Cons.prems have "\<forall>e \<in> set es. kf e = k \<longrightarrow> vf e = v" by simp
  from Cons.IH [OF this, of "AList.update (kf e) (vf e) acc"] Cons.prems
  show ?case by (auto simp: update_conv')
qed

lemma map_of_canonicalize:
  assumes "\<forall>e \<in> set es. entry_key e = k \<longrightarrow> canon_of e = v" and "\<exists>e \<in> set es. entry_key e = k"
  shows "map_of (canonicalize es) k = Some v"
  unfolding canonicalize_def using map_of_fold_update [OF assms(1), of "[]"] assms(2) by simp

lemma set_tidy_entries:
  "set (tidy_entries es) = tidy_entry ` {e \<in> set es. strip (dependency_work_item_id e) \<noteq> []}"
  by (auto simp: tidy_entries_def tidy_entry_def strip_strip)

lemma entry_key_tidy_entry: "entry_key (tidy_entry e) = entry_key e"
  by (simp add: entry_key_def tidy_entry_def strip_strip)

lemma canon_of_tidy_entry: "canon_of (tidy_entry e) = canon_of e"
  by (simp add: canon_of_def tidy_entry_def strip_strip)

lemma scanned_key_stripped: "scanned plans jobs \<Longrightarrow> map_of jobs w = Some rec \<Longrightarrow> strip w = w \<and> w \<noteq> []"
  unfolding scanned_def by (metis strip_strip)

lemma scanned_deps_stripped:
  "scanned plans jobs \<Longrightarrow> map_of jobs w = Some rec \<Longrightarrow> d \<in> set (r_depends_on rec) \<Longrightarrow> strip d = d"
  unfolding scanned_def by (metis normalize_str_list_stripped)

lemma changed_output_detected:
  assumes sc: "scanned plans jobs"
    and c: "map_of jobs c = Some rec_c" and u: "map_of jobs u = Some rec_u"
    and dep: "u \<in> set (r_depends_on rec_c)"
    and out: "out \<in> set (normalize_str_list (p_outputs (plans (r_job_dir rec_u))))"
    and nocolon: "\<forall>d \<in> set (r_depends_on rec_c). CHR '':'' \<notin> set d"
    and stored: "normalize_snapshot_entries snap = tidy_entries (make_current_input_entries fs0 plans jobs c)"
    and ch: "file_changed (fs0 (r_job_dir rec_u) out) (fs1 (r_job_dir rec_u) out)"
  shows "\<not> fst (compare_snapshot (make_current_input_entries fs1 plans jobs c) snap)"
proof -
  let ?cur = "make_current_input_entries fs1 plans jobs c"
  let ?old = "make_current_input_entries fs0 plans jobs c"
  let ?k = "u @ ''::'' @ out"
  let ?e = "\<lambda>fs. fingerprint fs u (r_job_dir rec_u) out"
  have su: "strip u = u" "u \<noteq> []" using scanned_key_stripped [OF sc u] by simp_all
  have so: "strip out = out" using out by (rule normalize_str_list_stripped)
  have mem: "?e fs \<in> set (make_current_input_entries fs plans jobs c)" for fs
    unfolding set_make_current_input_entries using c u dep out by auto
  have key: "entry_key (?e fs) = ?k" for fs by (simp add: entry_key_fingerprint su so)
  have only: "e = ?e fs"
    if "e \<in> set (make_current_input_entries fs plans jobs c)" "entry_key e = ?k" for e fs
  proof -
    from that(1) c obtain d dp ot where e: "e = fingerprint fs d (r_job_dir dp) ot"
      and d: "d \<in> set (r_depends_on rec_c)" and dp: "map_of jobs d = Some dp"
      and ot: "ot \<in> set (normalize_str_list (p_outputs (plans (r_job_dir dp))))"
      unfolding set_make_current_input_entries by auto
    have "strip d = d" using scanned_deps_stripped [OF sc c d] .
    moreover have "strip ot = ot" using ot by (rule normalize_str_list_stripped)
    ultimately have "d @ ''::'' @ ot = ?k" using that(2) by (simp add: e entry_key_fingerprint)
    from key_split [OF _ _ this] nocolon d dep have "d = u" "ot = out" by auto
    with dp u e show ?thesis by simp
  qed
  have cm: "map_of (canonicalize ?cur) ?k = Some (canon_of (?e fs1))"
    by (rule map_of_canonicalize) (use only [of _ fs1] mem [of fs1] key [of fs1] in auto)
  have sm: "map_of (canonicalize (normalize_snapshot_entries snap)) ?k = Some (canon_of (?e fs0))"
    unfolding stored
  proof (rule map_of_canonicalize)
    show "\<forall>e \<in> set (tidy_entries ?old). entry_key e = ?k \<longrightarrow> canon_of e = canon_of (?e fs0)"
      using only [of _ fs0]
      by (auto simp: set_tidy_entries entry_key_tidy_entry canon_of_tidy_entry)
    have "tidy_entry (?e fs0) \<in> set (tidy_entries ?old)"
      unfolding set_tidy_entries using mem [of fs0] by (simp add: dependency_fingerprint su)
    moreover have "entry_key (tidy_entry (?e fs0)) = ?k"
      using key [of fs0] by (simp add: entry_key_tidy_entry)
    ultimately show "\<exists>e \<in> set (tidy_entries ?old). entry_key e = ?k" by blast
  qed
  have mis: "any_mismatch (canonicalize ?cur) (canonicalize (normalize_snapshot_entries snap)) ?k"
    unfolding any_mismatch_def exists_flip_def hash_mismatch_def mtime_mismatch_def cm sm
    using file_changed_canon [where ?fs0.0 = fs0 and ?fs1.0 = fs1 and dir = "r_job_dir rec_u" and out = out and d = u, OF ch]
    by auto
  show ?thesis
  proof (cases "key_set (canonicalize ?cur) = key_set (canonicalize (normalize_snapshot_entries snap))")
    case False
    from compare_snapshot_keys_differ [OF this] show ?thesis by simp
  next
    case True
    from cm have "map_of (canonicalize ?cur) ?k \<noteq> None" by simp
    then have "?k \<in> fst ` set (canonicalize ?cur)" by (simp only: map_of_eq_None_iff not_not)
    then have "?k \<in> set (sort (map fst (canonicalize ?cur)))" by simp
    with mis show ?thesis
      unfolding compare_snapshot_keys_equal [OF True] compare_keys_pass by blast
  qed
qed


subsection \<open>Invalidation from a trigger job\<close>

text \<open>
  An upstream job \<^verbatim>\<open>WI-1\<close> with one declared output and its consumer \<^verbatim>\<open>WI-2\<close>, both
  done; the consumer's snapshot was taken when the output was at its first version.
\<close>

definition blank_plan :: plan_doc where
  "blank_plan =
     \<lparr> p_work_item_id = [], p_status = [], p_depends_on = VNone, p_outputs = VNone,
       p_truth_input_snapshot = SMissing, p_completed_at = [], p_updated_at = [],
       p_truth_last_status = [], p_truth_last_checked_at = [], p_truth_last_failures = [],
       p_body = [] \<rparr>"

definition upstream_plan :: plan_doc where
  "upstream_plan =
     blank_plan\<lparr> p_work_item_id := ''WI-1'', p_status := ''done'',
                 p_outputs := VList [''outputs/primary.md''],
                 p_completed_at := ''2026-01-01T10:00:00Z'' \<rparr>"

definition consumer_plan :: plan_doc where
  "consumer_plan =
     blank_plan\<lparr> p_work_item_id := ''WI-2'', p_status := ''done'',
                 p_depends_on := VList [''WI-1''],
                 p_outputs := VList [''outputs/primary.md''],
                 p_truth_input_snapshot :=
                   SPath ''artifacts/input-snapshot.json''
                     (Some [\<lparr>dependency_work_item_id = ''WI-1'', declared_output = ''outputs/primary.md'',
                             exists_flag = True, sha256 = ''aa11'', mtime = Some 100,
                             size_bytes = Some 40\<rparr>]),
                 p_completed_at := ''2026-01-01T11:00:00Z'',
                 p_truth_last_status := ''pass'',
                 p_body := ''# Objective'' @ [CHR 0x0A, CHR 0x0A] @ ''Build on the upstream output.''
                   @ [CHR 0x0A, CHR 0x0A] @ ''# Progress Log'' @ [CHR 0x0A, CHR 0x0A]
                   @ ''- 2026-01-01T11:00:00Z job_complete: gate PASSED; status=done confirmed''
                   @ [CHR 0x0A] \<rparr>"

definition stale_dirs :: "string list" where
  "stale_dirs = [''jobs/WI-1'', ''jobs/WI-2'']"

definition stale_plans :: plan_store where
  "stale_plans job_dir =
     (if job_dir = ''jobs/WI-1'' then upstream_plan
      else if job_dir = ''jobs/WI-2'' then consumer_plan else blank_plan)"

definition files_v1 :: out_files where
  "files_v1 job_dir rel =
     (if job_dir = ''jobs/WI-1'' \<and> rel = ''outputs/primary.md''
      then Some \<lparr>f_sha256 = ''aa11'', f_mtime = 100, f_size = 40\<rparr> else None)"

definition files_v2 :: out_files where
  "files_v2 job_dir rel =
     (if job_dir = ''jobs/WI-1'' \<and> rel = ''outputs/primary.md''
      then Some \<lparr>f_sha256 = ''bb22'', f_mtime = 160, f_size = 78\<rparr> else None)"

definition stale_clock :: "string \<Rightarrow> string" where
  "stale_clock wi = ''2026-01-02T09:00:00Z''"

lemma stale_jobs_scan:
  "map_of (inv_scan_jobs stale_dirs stale_plans) ''WI-1''
     = Some \<lparr>r_work_item_id = ''WI-1'', r_status = ''done'', r_depends_on = [], r_job_dir = ''jobs/WI-1''\<rparr>"
  "map_of (inv_scan_jobs stale_dirs stale_plans) ''WI-2''
     = Some \<lparr>r_work_item_id = ''WI-2'', r_status = ''done'', r_depends_on = [''WI-1''],
             r_job_dir = ''jobs/WI-2''\<rparr>"
  by code_simp+

lemma stale_compare:
  "compare_snapshot (make_current_input_entries files_v2 stale_plans (inv_scan_jobs stale_dirs stale_plans) ''WI-2'')
     (p_truth_input_snapshot (stale_plans ''jobs/WI-2''))
   = (False, ''WI-1::outputs/primary.md hash changed'')"
  by code_simp

lemma stale_snapshot_v1:
  "normalize_snapshot_entries (p_truth_input_snapshot (stale_plans ''jobs/WI-2''))
     = tidy_entries (make_current_input_entries files_v1 stale_plans (inv_scan_jobs stale_dirs stale_plans) ''WI-2'')"
  by code_simp

lemma stale_misc:
  "strip ''WI-1'' = ''WI-1''"
  "status_or_planned (p_status (stale_plans ''jobs/WI-2'')) = ''done''"
  "\<not> snapshot_missing (p_truth_input_snapshot (stale_plans ''jobs/WI-2''))"
  "normalize_str_list (p_outputs (stale_plans ''jobs/WI-1'')) = [''outputs/primary.md'']"
  "file_changed (files_v1 ''jobs/WI-1'' ''outputs/primary.md'') (files_v2 ''jobs/WI-1'' ''outputs/primary.md'')"
  by code_simp+


lemma stale_body:
  "append_progress_log (p_body (stale_plans ''jobs/WI-2''))
     (stale_clock ''WI-2'' @ '' invalidate_downstream: done -> blocked (stale truth_input_snapshot: ''
        @ ''WI-1::outputs/primary.md hash changed'' @ '')'')
   = ''# Objective'' @ [CHR 0x0A, CHR 0x0A] @ ''Build on the upstream output.''
       @ [CHR 0x0A, CHR 0x0A] @ ''# Progress Log'' @ [CHR 0x0A, CHR 0x0A, CHR 0x0A]
       @ ''- 2026-01-01T11:00:00Z job_complete: gate PASSED; status=done confirmed''
       @ [CHR 0x0A]
       @ ''- 2026-01-02T09:00:00Z invalidate_downstream: done -> blocked (stale truth_input_snapshot: WI-1::outputs/primary.md hash changed)''
       @ [CHR 0x0A]"
  by code_simp

text \<open>
  Claim C3: a run scoped to a trigger job that the scan knows goes through exactly the
  jobs that depend on the trigger, directly or through other jobs (the trigger itself
  is not among them); each is recorded as scanned or as skipped. Every such job that is
  \<open>done\<close>, has a stored snapshot, and fails the comparison of that snapshot with the
  fingerprints of its dependencies' declared outputs, with reason \<open>r\<close>, is written back
  with status \<open>blocked\<close>, an empty \<open>completed_at\<close>, \<open>truth_last_status\<close> \<open>fail\<close>, the
  single truth failure \<open>freshness_inputs: r\<close> and a body that holds the audit line
  (time stamp, \<^verbatim>\<open>invalidate_downstream: done -> blocked\<close> and the reason \<open>r\<close>) as a line
  of its own, and is listed as stale with reason \<open>r\<close>. In particular: when a \<open>done\<close> consumer names the
  trigger among its dependencies, its stored snapshot holds the fingerprints taken
  over the files \<open>fs0\<close>, none of its dependency ids contains a colon, and a declared
  output of the trigger has changed since (it appeared or disappeared, or its hash or
  its modification time differs), the run leaves the consumer \<open>blocked\<close> with an empty
  \<open>completed_at\<close>.
\<close>

theorem invalidation_marks_stale_closure:
  assumes "map_of (inv_scan_jobs dirs plans) (strip trigger) \<noteq> None"
  shows "\<exists>st. invalidate fs clock dirs plans (Some trigger) = Inr st
      \<and> set (i_scanned_done st) \<union> fst ` set (i_skipped st)
          = {w. (strip trigger, w) \<in> (dependents (inv_scan_jobs dirs plans))\<^sup>+ \<and> w \<noteq> strip trigger}
      \<and> (\<forall>w rec reason.
            (strip trigger, w) \<in> (dependents (inv_scan_jobs dirs plans))\<^sup>+ \<and> w \<noteq> strip trigger
            \<and> map_of (inv_scan_jobs dirs plans) w = Some rec
            \<and> status_or_planned (p_status (plans (r_job_dir rec))) = ''done''
            \<and> \<not> snapshot_missing (p_truth_input_snapshot (plans (r_job_dir rec)))
            \<and> compare_snapshot (make_current_input_entries fs plans (inv_scan_jobs dirs plans) w)
                 (p_truth_input_snapshot (plans (r_job_dir rec))) = (False, reason)
            \<longrightarrow> i_plans st (r_job_dir rec) = mark_stale (clock w) reason (plans (r_job_dir rec))
              \<and> p_status (i_plans st (r_job_dir rec)) = ''blocked''
              \<and> p_completed_at (i_plans st (r_job_dir rec)) = []
              \<and> p_truth_last_status (i_plans st (r_job_dir rec)) = ''fail''
              \<and> p_truth_last_failures (i_plans st (r_job_dir rec)) = [''freshness_inputs: '' @ reason]
              \<and> p_body (i_plans st (r_job_dir rec))
                  = append_progress_log (p_body (plans (r_job_dir rec)))
                      (clock w @ '' invalidate_downstream: done -> blocked (stale truth_input_snapshot: ''
                         @ reason @ '')'')
              \<and> (\<exists>before after. p_body (i_plans st (r_job_dir rec))
                  = before @ [CHR 0x0A] @ ''- ''
                      @ (clock w @ '' invalidate_downstream: done -> blocked (stale truth_input_snapshot: ''
                         @ reason @ '')'')
                      @ [CHR 0x0A] @ after)
              \<and> (w, reason) \<in> set (i_stale_jobs st))
      \<and> (\<forall>c rec_c rec_u out fs0.
            map_of (inv_scan_jobs dirs plans) c = Some rec_c \<and> c \<noteq> strip trigger
            \<and> map_of (inv_scan_jobs dirs plans) (strip trigger) = Some rec_u
            \<and> strip trigger \<in> set (r_depends_on rec_c)
            \<and> list_all (\<lambda>d. CHR '':'' \<notin> set d) (r_depends_on rec_c)
            \<and> out \<in> set (normalize_str_list (p_outputs (plans (r_job_dir rec_u))))
            \<and> status_or_planned (p_status (plans (r_job_dir rec_c))) = ''done''
            \<and> \<not> snapshot_missing (p_truth_input_snapshot (plans (r_job_dir rec_c)))
            \<and> normalize_snapshot_entries (p_truth_input_snapshot (plans (r_job_dir rec_c)))
                = tidy_entries (make_current_input_entries fs0 plans (inv_scan_jobs dirs plans) c)
            \<and> file_changed (fs0 (r_job_dir rec_u) out) (fs (r_job_dir rec_u) out)
            \<longrightarrow> p_status (i_plans st (r_job_dir rec_c)) = ''blocked''
              \<and> p_completed_at (i_plans st (r_job_dir rec_c)) = [])"
proof -
  define jobs where "jobs = inv_scan_jobs dirs plans"
  define t where "t = strip trigger"
  have sc: "scanned plans jobs" unfolding jobs_def by (rule scanned_scan_jobs)
  from invalidate_trigger [OF assms, of fs clock] obtain st where
    run: "invalidate fs clock dirs plans (Some trigger) = Inr st"
    and vis: "visited st = {w. (t, w) \<in> (dependents jobs)\<^sup>+ \<and> w \<noteq> t}"
    and stale: "\<And>w reason. stale_reason fs plans jobs w = Some reason \<Longrightarrow>
            (t, w) \<in> (dependents jobs)\<^sup>+ \<Longrightarrow> w \<noteq> t \<Longrightarrow>
            i_plans st (dir_of jobs w) = mark_stale (clock w) reason (plans (dir_of jobs w))
              \<and> (w, reason) \<in> set (i_stale_jobs st)"
    unfolding jobs_def t_def by blast
  have m: "i_plans st (r_job_dir rec) = mark_stale (clock w) reason (plans (r_job_dir rec))
           \<and> (w, reason) \<in> set (i_stale_jobs st)"
    if "(t, w) \<in> (dependents jobs)\<^sup>+" "w \<noteq> t"
      "map_of jobs w = Some rec"
      "status_or_planned (p_status (plans (r_job_dir rec))) = ''done''"
      "\<not> snapshot_missing (p_truth_input_snapshot (plans (r_job_dir rec)))"
      "compare_snapshot (make_current_input_entries fs plans jobs w)
                 (p_truth_input_snapshot (plans (r_job_dir rec))) = (False, reason)"
    for w rec reason
  proof -
    from that(3-6) have sr: "stale_reason fs plans jobs w = Some reason"
      by (simp add: stale_reason_Some_iff)
    from that(3) have dir: "dir_of jobs w = r_job_dir rec" by (simp add: dir_of_def)
    from stale [OF sr that(1,2)] show ?thesis by (simp add: dir)
  qed
  have ch: "p_status (i_plans st (r_job_dir rec_c)) = ''blocked''
              \<and> p_completed_at (i_plans st (r_job_dir rec_c)) = []"
    if c: "map_of jobs c = Some rec_c" and ne: "c \<noteq> t" and u: "map_of jobs t = Some rec_u"
      and dep: "t \<in> set (r_depends_on rec_c)"
      and nocolon: "list_all (\<lambda>d. CHR '':'' \<notin> set d) (r_depends_on rec_c)"
      and out: "out \<in> set (normalize_str_list (p_outputs (plans (r_job_dir rec_u))))"
      and dn: "status_or_planned (p_status (plans (r_job_dir rec_c))) = ''done''"
      and sm: "\<not> snapshot_missing (p_truth_input_snapshot (plans (r_job_dir rec_c)))"
      and stored: "normalize_snapshot_entries (p_truth_input_snapshot (plans (r_job_dir rec_c)))
                = tidy_entries (make_current_input_entries fs0 plans jobs c)"
      and fc: "file_changed (fs0 (r_job_dir rec_u) out) (fs (r_job_dir rec_u) out)"
    for c rec_c rec_u out fs0
  proof -
    from scanned_key_stripped [OF sc u] have st: "strip t = t" "t \<noteq> []" by simp_all
    from dep have "strip t \<in> strip ` set (r_depends_on rec_c)" by (rule imageI)
    with st c have "(t, c) \<in> dependents jobs" by (simp add: dependents_def)
    then have reach: "(t, c) \<in> (dependents jobs)\<^sup>+" by (rule r_into_trancl)
    from nocolon have nc: "\<forall>d \<in> set (r_depends_on rec_c). CHR '':'' \<notin> set d"
      by (simp add: list_all_iff)
    let ?v = "compare_snapshot (make_current_input_entries fs plans jobs c)
                (p_truth_input_snapshot (plans (r_job_dir rec_c)))"
    from changed_output_detected [where ?fs0.0 = fs0 and ?fs1.0 = fs, OF sc c u dep out nc stored fc] have "\<not> fst ?v" .
    then have "?v = (False, snd ?v)" by (simp add: prod_eq_iff)
    from m [OF reach ne c dn sm this] show ?thesis by (simp add: mark_stale_fields)
  qed
  have part1: "set (i_scanned_done st) \<union> fst ` set (i_skipped st)
          = {w. (strip trigger, w) \<in> (dependents (inv_scan_jobs dirs plans))\<^sup>+ \<and> w \<noteq> strip trigger}"
    using vis by (simp add: jobs_def t_def visited_def)
  have part2: "p_status (i_plans st (r_job_dir rec)) = ''blocked''
              \<and> p_completed_at (i_plans st (r_job_dir rec)) = []
              \<and> p_truth_last_status (i_plans st (r_job_dir rec)) = ''fail''
              \<and> p_truth_last_failures (i_plans st (r_job_dir rec)) = [''freshness_inputs: '' @ reason]
              \<and> p_body (i_plans st (r_job_dir rec))
                  = append_progress_log (p_body (plans (r_job_dir rec)))
                      (clock w @ '' invalidate_downstream: done -> blocked (stale truth_input_snapshot: ''
                         @ reason @ '')'')
              \<and> (\<exists>before after. p_body (i_plans st (r_job_dir rec))
                  = before @ [CHR 0x0A] @ ''- ''
                      @ (clock w @ '' invalidate_downstream: done -> blocked (stale truth_input_snapshot: ''
                         @ reason @ '')'')
                      @ [CHR 0x0A] @ after)"
    if e: "i_plans st (r_job_dir rec) = mark_stale (clock w) reason (plans (r_job_dir rec))"
    for w rec reason
    unfolding e by (intro conjI mark_stale_fields mark_stale_audit_line)
  show ?thesis
  proof (intro exI [of _ st] conjI allI impI; (elim conjE)?)
    show "invalidate fs clock dirs plans (Some trigger) = Inr st" by (rule run)
  next
    show "set (i_scanned_done st) \<union> fst ` set (i_skipped st)
          = {w. (strip trigger, w) \<in> (dependents (inv_scan_jobs dirs plans))\<^sup>+ \<and> w \<noteq> strip trigger}"
      by (rule part1)
  next
    fix c rec_c rec_u out fs0
    assume "map_of (inv_scan_jobs dirs plans) c = Some rec_c" "c \<noteq> strip trigger"
      "map_of (inv_scan_jobs dirs plans) (strip trigger) = Some rec_u"
      "strip trigger \<in> set (r_depends_on rec_c)"
      "list_all (\<lambda>d. CHR '':'' \<notin> set d) (r_depends_on rec_c)"
      "out \<in> set (normalize_str_list (p_outputs (plans (r_job_dir rec_u))))"
      "status_or_planned (p_status (plans (r_job_dir rec_c))) = ''done''"
      "\<not> snapshot_missing (p_truth_input_snapshot (plans (r_job_dir rec_c)))"
      "normalize_snapshot_entries (p_truth_input_snapshot (plans (r_job_dir rec_c)))
                = tidy_entries (make_current_input_entries fs0 plans (inv_scan_jobs dirs plans) c)"
      "file_changed (fs0 (r_job_dir rec_u) out) (fs (r_job_dir rec_u) out)"
    then have r: "p_status (i_plans st (r_job_dir rec_c)) = ''blocked''
              \<and> p_completed_at (i_plans st (r_job_dir rec_c)) = []"
      unfolding jobs_def [symmetric] t_def [symmetric] by (rule ch)
    from r show "p_status (i_plans st (r_job_dir rec_c)) = ''blocked''" ..
    from r show "p_completed_at (i_plans st (r_job_dir rec_c)) = []" ..
  next
    fix w rec reason
    assume "(strip trigger, w) \<in> (dependents (inv_scan_jobs dirs plans))\<^sup>+" "w \<noteq> strip trigger"
      "map_of (inv_scan_jobs dirs plans) w = Some rec"
      "status_or_planned (p_status (plans (r_job_dir rec))) = ''done''"
      "\<not> snapshot_missing (p_truth_input_snapshot (plans (r_job_dir rec)))"
      "compare_snapshot (make_current_input_entries fs plans (inv_scan_jobs dirs plans) w)
                 (p_truth_input_snapshot (plans (r_job_dir rec))) = (False, reason)"
    then have mm: "i_plans st (r_job_dir rec) = mark_stale (clock w) reason (plans (r_job_dir rec))
           \<and> (w, reason) \<in> set (i_stale_jobs st)"
      unfolding jobs_def [symmetric] t_def [symmetric] by (rule m)
    then have e: "i_plans st (r_job_dir rec) = mark_stale (clock w) reason (plans (r_job_dir rec))" ..
    note p2 = part2 [OF e]
    from e show "i_plans st (r_job_dir rec) = mark_stale (clock w) reason (plans (r_job_dir rec))" .
    from p2 show "p_status (i_plans st (r_job_dir rec)) = ''blocked''" by blast
    from p2 show "p_completed_at (i_plans st (r_job_dir rec)) = []" by blast
    from p2 show "p_truth_last_status (i_plans st (r_job_dir rec)) = ''fail''" by blast
    from p2 show "p_truth_last_failures (i_plans st (r_job_dir rec)) = [''freshness_inputs: '' @ reason]"
      by blast
    from p2 show "p_body (i_plans st (r_job_dir rec))
                  = append_progress_log (p_body (plans (r_job_dir rec)))
                      (clock w @ '' invalidate_downstream: done -> blocked (stale truth_input_snapshot: ''
                         @ reason @ '')'')" by blast
    from p2 show "\<exists>before after. p_body (i_plans st (r_job_dir rec))
                  = before @ [CHR 0x0A] @ ''- ''
                      @ (clock w @ '' invalidate_downstream: done -> blocked (stale truth_input_snapshot: ''
                         @ reason @ '')'')
                      @ [CHR 0x0A] @ after" by blast
    from mm show "(w, reason) \<in> set (i_stale_jobs st)" ..
  qed
qed

theorem invalidation_marks_stale_closure_witness:
  "\<exists>st. invalidate files_v2 stale_clock stale_dirs stale_plans (Some ''WI-1'') = Inr st
     \<and> p_status (i_plans st ''jobs/WI-2'') = ''blocked''
     \<and> p_completed_at (i_plans st ''jobs/WI-2'') = []
     \<and> p_truth_last_status (i_plans st ''jobs/WI-2'') = ''fail''
     \<and> p_truth_last_failures (i_plans st ''jobs/WI-2'')
         = [''freshness_inputs: WI-1::outputs/primary.md hash changed'']
     \<and> p_body (i_plans st ''jobs/WI-2'')
         = ''# Objective'' @ [CHR 0x0A, CHR 0x0A] @ ''Build on the upstream output.''
             @ [CHR 0x0A, CHR 0x0A] @ ''# Progress Log'' @ [CHR 0x0A, CHR 0x0A, CHR 0x0A]
             @ ''- 2026-01-01T11:00:00Z job_complete: gate PASSED; status=done confirmed''
             @ [CHR 0x0A]
             @ ''- 2026-01-02T09:00:00Z invalidate_downstream: done -> blocked (stale truth_input_snapshot: WI-1::outputs/primary.md hash changed)''
             @ [CHR 0x0A]
     \<and> (''WI-2'', ''WI-1::outputs/primary.md hash changed'') \<in> set (i_stale_jobs st)"
proof -
  let ?jobs = "inv_scan_jobs stale_dirs stale_plans"
  let ?u = "\<lparr>r_work_item_id = ''WI-1'', r_status = ''done'', r_depends_on = [], r_job_dir = ''jobs/WI-1''\<rparr>"
  let ?c = "\<lparr>r_work_item_id = ''WI-2'', r_status = ''done'', r_depends_on = [''WI-1''],
             r_job_dir = ''jobs/WI-2''\<rparr>"
  have known: "map_of ?jobs (strip ''WI-1'') \<noteq> None" by (simp add: stale_misc stale_jobs_scan)
  have "(''WI-1'', ''WI-2'') \<in> dependents ?jobs"
    by (simp add: dependents_def stale_jobs_scan stale_misc)
  then have reach: "(strip ''WI-1'', ''WI-2'') \<in> (dependents ?jobs)\<^sup>+"
    unfolding stale_misc by (rule r_into_trancl)
  from invalidation_marks_stale_closure [OF known, of files_v2 stale_clock] obtain st where
    run: "invalidate files_v2 stale_clock stale_dirs stale_plans (Some ''WI-1'') = Inr st"
    and a: "\<And>w rec reason.
            (strip ''WI-1'', w) \<in> (dependents ?jobs)\<^sup>+ \<and> w \<noteq> strip ''WI-1''
            \<and> map_of ?jobs w = Some rec
            \<and> status_or_planned (p_status (stale_plans (r_job_dir rec))) = ''done''
            \<and> \<not> snapshot_missing (p_truth_input_snapshot (stale_plans (r_job_dir rec)))
            \<and> compare_snapshot (make_current_input_entries files_v2 stale_plans ?jobs w)
                 (p_truth_input_snapshot (stale_plans (r_job_dir rec))) = (False, reason)
            \<Longrightarrow> p_truth_last_status (i_plans st (r_job_dir rec)) = ''fail''
              \<and> p_truth_last_failures (i_plans st (r_job_dir rec)) = [''freshness_inputs: '' @ reason]
              \<and> p_body (i_plans st (r_job_dir rec))
                  = append_progress_log (p_body (stale_plans (r_job_dir rec)))
                      (stale_clock w @ '' invalidate_downstream: done -> blocked (stale truth_input_snapshot: ''
                         @ reason @ '')'')
              \<and> (w, reason) \<in> set (i_stale_jobs st)"
    and b: "\<And>c rec_c rec_u out fs0.
            map_of ?jobs c = Some rec_c \<and> c \<noteq> strip ''WI-1''
            \<and> map_of ?jobs (strip ''WI-1'') = Some rec_u
            \<and> strip ''WI-1'' \<in> set (r_depends_on rec_c)
            \<and> list_all (\<lambda>d. CHR '':'' \<notin> set d) (r_depends_on rec_c)
            \<and> out \<in> set (normalize_str_list (p_outputs (stale_plans (r_job_dir rec_u))))
            \<and> status_or_planned (p_status (stale_plans (r_job_dir rec_c))) = ''done''
            \<and> \<not> snapshot_missing (p_truth_input_snapshot (stale_plans (r_job_dir rec_c)))
            \<and> normalize_snapshot_entries (p_truth_input_snapshot (stale_plans (r_job_dir rec_c)))
                = tidy_entries (make_current_input_entries fs0 stale_plans ?jobs c)
            \<and> file_changed (fs0 (r_job_dir rec_u) out) (files_v2 (r_job_dir rec_u) out)
            \<Longrightarrow> p_status (i_plans st (r_job_dir rec_c)) = ''blocked''
              \<and> p_completed_at (i_plans st (r_job_dir rec_c)) = []"
    by blast
  from a [of "''WI-2''" ?c "''WI-1::outputs/primary.md hash changed''"] reach
  have x: "p_truth_last_status (i_plans st ''jobs/WI-2'') = ''fail''
     \<and> p_truth_last_failures (i_plans st ''jobs/WI-2'')
         = [''freshness_inputs: WI-1::outputs/primary.md hash changed'']
     \<and> p_body (i_plans st ''jobs/WI-2'')
         = append_progress_log (p_body (stale_plans ''jobs/WI-2''))
             (stale_clock ''WI-2'' @ '' invalidate_downstream: done -> blocked (stale truth_input_snapshot: ''
                @ ''WI-1::outputs/primary.md hash changed'' @ '')'')
     \<and> (''WI-2'', ''WI-1::outputs/primary.md hash changed'') \<in> set (i_stale_jobs st)"
    by (simp add: stale_jobs_scan stale_misc stale_compare)
  from b [of "''WI-2''" ?c ?u "''outputs/primary.md''" files_v1]
  have y: "p_status (i_plans st ''jobs/WI-2'') = ''blocked''
     \<and> p_completed_at (i_plans st ''jobs/WI-2'') = []"
    by (simp add: stale_jobs_scan stale_misc stale_snapshot_v1)
  from run x y show ?thesis unfolding stale_body [symmetric] by blast
qed


subsection \<open>A second run\<close>

text \<open>A second scan after the run: the same records, with the statuses read again.\<close>

definition restatus :: "plan_store \<Rightarrow> job_records \<Rightarrow> job_records" where
  "restatus q jobs =
     map (\<lambda>kv. (fst kv, (snd kv)\<lparr>r_status := status_or_planned (p_status (q (r_job_dir (snd kv))))\<rparr>)) jobs"


lemma map_of_restatus:
  "map_of (restatus q jobs) w
     = map_option (\<lambda>r. r\<lparr>r_status := status_or_planned (p_status (q (r_job_dir r)))\<rparr>) (map_of jobs w)"
  by (induction jobs) (auto simp: restatus_def)







lemma dir_of_restatus: "dir_of (restatus q jobs) w = dir_of jobs w"
  by (cases "map_of jobs w") (simp_all add: map_of_restatus dir_of_def)











section \<open>The critical path (orchestrate\_plan.py, dependency\_graph.py)\<close>

text \<open>
  The one arithmetic step of the longest-path pass is \<^verbatim>\<open>dist[pred] + node_weight\<close>, an
  addition of Python floats. Above it is taken as the exact addition. Here the pass is
  written over any addition \<open>add\<close> on the weights, so that what is proved of it holds
  for the rounding addition of floats as well as for the exact one.
\<close>

definition cp_pred_step_with ::
  "(real \<Rightarrow> real \<Rightarrow> real) \<Rightarrow> dist \<Rightarrow> real \<Rightarrow> string \<Rightarrow> real \<times> string option \<Rightarrow> real \<times> string option" where
  "cp_pred_step_with add dist_tab node_weight pred b =
     (case map_of dist_tab pred of
        None \<Rightarrow> b
      | Some d \<Rightarrow> (let cand = add d node_weight in if cand > fst b then (cand, Some pred) else b))"

definition cp_node_step_with ::
  "(real \<Rightarrow> real \<Rightarrow> real) \<Rightarrow> (string \<Rightarrow> string list) \<Rightarrow> (string \<rightharpoonup> real) \<Rightarrow> string
     \<Rightarrow> dist \<times> parent \<Rightarrow> dist \<times> parent" where
  "cp_node_step_with add preds weights node s =
     (let node_weight = (case weights node of Some w \<Rightarrow> w | None \<Rightarrow> 1);
          b = fold (cp_pred_step_with add (fst s) node_weight) (preds node) (node_weight, None)
      in (AList.update node (fst b) (fst s), AList.update node (snd b) (snd s)))"

definition longest_pass_with ::
  "(real \<Rightarrow> real \<Rightarrow> real) \<Rightarrow> (string \<Rightarrow> string list) \<Rightarrow> (string \<rightharpoonup> real) \<Rightarrow> string list
     \<Rightarrow> dist \<times> parent" where
  "longest_pass_with add preds weights topo_order =
     fold (cp_node_step_with add preds weights) topo_order ([], [])"

definition critical_path_with ::
  "(real \<Rightarrow> real \<Rightarrow> real) \<Rightarrow> string list \<Rightarrow> (string \<times> string) list \<Rightarrow> (string \<rightharpoonup> real)
     \<Rightarrow> (string list \<times> real \<times> bool) option" where
  "critical_path_with add node_ids edges weights =
     (let t = cp_build node_ids edges;
          topo_order = cp_topo_order node_ids t
      in if length topo_order \<noteq> length node_ids then Some ([], 0, False)
         else
           let s = longest_pass_with add (cp_preds t) weights topo_order in
           if fst s = [] then Some ([], 0, True)
           else
             let end_node = cp_end (fst s); total = dist_of (fst s) end_node in
             case walk_parents (snd s) (Some end_node) [] of
               None \<Rightarrow> None
             | Some path \<Rightarrow> Some (rev path, total, True))"

lemma cp_pred_step_exact: "cp_pred_step = cp_pred_step_with (+)"
  by (intro ext) (simp add: cp_pred_step_def cp_pred_step_with_def)

lemma cp_node_step_exact: "cp_node_step = cp_node_step_with (+)"
  by (intro ext) (simp add: cp_node_step_def cp_node_step_with_def cp_pred_step_exact)

lemma longest_pass_exact: "longest_pass = longest_pass_with (+)"
  by (intro ext) (simp add: longest_pass_def longest_pass_with_def cp_node_step_exact)

lemma critical_path_exact: "critical_path = critical_path_with (+)"
  by (intro ext) (simp only: critical_path_def critical_path_with_def longest_pass_exact)






subsection \<open>The topological sort\<close>



















subsection \<open>The longest-path pass\<close>










subsection \<open>Paths\<close>












subsection \<open>Distances and paths\<close>
















subsection \<open>The longest path\<close>












end
